theory Spec2Isabelle
  imports Main "HOL-Library.Multiset" "HOL-Library.Product_Lexorder"
    "HOL-Library.List_Lexorder" "HOL-Library.Char_ord"
begin

section \<open>Data model\<close>

text \<open>
  The build request distributor of Buildbot
  (\<^verbatim>\<open>master/buildbot/process/buildrequestdistributor.py\<close>) and the Triggerable scheduler
  (\<^verbatim>\<open>master/buildbot/schedulers/triggerable.py\<close>), as state-passing functions.

  Python integers are \<open>int\<close>. A worker is an opaque handle, compared by identity; the
  handle is a number here. Worker and BuildRequest objects are truthy in Python, so
  \<^verbatim>\<open>if not worker\<close> is the test for \<^verbatim>\<open>None\<close>.
\<close>

type_synonym worker = nat

text \<open>
  A \<^verbatim>\<open>brdict\<close>: one raw build request as the data API returns it. The fields the
  distributor reads are kept; the optional fields \<^verbatim>\<open>complete_at\<close>, \<^verbatim>\<open>complete\<close>,
  \<^verbatim>\<open>results\<close>, \<^verbatim>\<open>claimed_at\<close> and \<^verbatim>\<open>claimed_by_masterid\<close> are copied into the
  BuildRequestModel and never read by the code below.
\<close>

record brdict =
  buildrequestid :: int
  buildsetid :: int
  builderid :: int
  submitted_at :: int
  priority :: int
  waited_for :: bool

text \<open>\<^verbatim>\<open>BuildRequestModel\<close>: the brdict's fields and the builder's name.\<close>

record BuildRequestModel = brdict +
  buildername :: string

text \<open>
  \<^verbatim>\<open>BuildRequest\<close>: the resolved object (\<^verbatim>\<open>breq.id\<close>, \<^verbatim>\<open>breq.bsid\<close>,
  \<^verbatim>\<open>breq.waited_for\<close>, ...). The fields carry the prefix \<open>br_\<close>, since \<open>id\<close> is a
  constant of HOL and \<open>priority\<close> a field of the brdict.
\<close>

record BuildRequest =
  br_id :: int
  br_bsid :: int
  br_buildername :: string
  br_priority :: int
  br_waited_for :: bool

text \<open>
  Exceptions are values. \<open>FirstError e i\<close> is Twisted's \<^verbatim>\<open>defer.FirstError\<close>: the failure
  \<open>e\<close> of the Deferred at index \<open>i\<close> of a gathered list.
\<close>

datatype exn = Exception string | IndexError | FirstError exn nat

section \<open>The build chooser\<close>

text \<open>
  The collaborators of one chooser: the data API, the builder and the configured policies.
  Each call that can raise returns \<open>exn + 'a\<close> (\<open>Inl\<close> the exception).

  \<^item> \<open>data_get_buildrequests\<close>: \<^verbatim>\<open>master.data.get(('builders', id, 'buildrequests'),
    [Filter('claimed', 'eq', [False])])\<close>;
  \<^item> \<open>data_get_builder\<close>: \<^verbatim>\<open>master.data.get(('builders', builderid), fields=['name'])\<close>,
    the builder's name or \<^verbatim>\<open>None\<close>;
  \<^item> \<open>fromBrdict\<close>: \<^verbatim>\<open>BuildRequest.fromBrdict(master, model)\<close>;
  \<^item> \<open>nextBuild\<close>: \<^verbatim>\<open>bldr.config.nextBuild\<close>, \<open>None\<close> when not configured;
  \<^item> \<open>nextWorker\<close>: the next-worker policy (\<^verbatim>\<open>bldr.config.nextWorker\<close>,
    \<^verbatim>\<open>master.config.select_next_worker\<close> or the random default), called with the pool and
    the request;
  \<^item> \<open>getAvailableWorkers\<close>: \<^verbatim>\<open>bldr.getAvailableWorkers()\<close>;
  \<^item> \<open>canStartBuild\<close>: \<^verbatim>\<open>bldr.canStartBuild(worker, breq)\<close>.
\<close>

record chooser_env =
  data_get_buildrequests :: "exn + brdict list"
  data_get_builder :: "int \<Rightarrow> exn + string option"
  fromBrdict :: "BuildRequestModel \<Rightarrow> exn + BuildRequest option"
  nextBuild :: "(BuildRequest option list \<Rightarrow> exn + BuildRequest option) option"
  nextWorker :: "worker list \<Rightarrow> BuildRequest \<Rightarrow> exn + worker option"
  getAvailableWorkers :: "worker list"
  canStartBuild :: "worker \<Rightarrow> BuildRequest \<Rightarrow> exn + bool"

text \<open>The calls a chooser makes to its collaborators, in the order it makes them.\<close>

datatype call =
    Call_data_get_buildrequests
  | Call_nextBuild "BuildRequest option list"
  | Call_nextWorker "worker list" BuildRequest
  | Call_canStartBuild worker BuildRequest

text \<open>
  The attributes of a \<^verbatim>\<open>BasicBuildChooser\<close>. \<open>unclaimedBrdicts = None\<close> is Python's
  \<^verbatim>\<open>self.unclaimedBrdicts = None\<close> (nothing fetched yet). \<open>calls\<close> is the log of the calls
  made so far, latest last.
\<close>

record chooser =
  breqCache :: "int \<rightharpoonup> BuildRequest"
  unclaimedBrdicts :: "brdict list option"
  workerpool :: "worker list"
  preferredWorkers :: "worker list"
  calls :: "call list"

text \<open>\<^verbatim>\<open>BasicBuildChooser.__init__\<close>.\<close>

definition BasicBuildChooser :: "chooser_env \<Rightarrow> chooser" where
  "BasicBuildChooser E =
     \<lparr>breqCache = Map.empty, unclaimedBrdicts = None,
      workerpool = getAvailableWorkers E, preferredWorkers = [], calls = []\<rparr>"

definition log_call :: "call \<Rightarrow> chooser \<Rightarrow> chooser" where
  "log_call c s = s\<lparr>calls := calls s @ [c]\<rparr>"

text \<open>
  \<^verbatim>\<open>_fetchUnclaimedBrdicts\<close>: the store is read only while the cache is \<^verbatim>\<open>None\<close>; the
  result is sorted by \<^verbatim>\<open>buildrequestid\<close> (\<^verbatim>\<open>list.sort\<close> is stable, as \<open>sort_key\<close> is).
\<close>

definition fetchUnclaimedBrdicts :: "chooser_env \<Rightarrow> chooser \<Rightarrow> (exn + brdict list) \<times> chooser" where
  "fetchUnclaimedBrdicts E s =
     (case unclaimedBrdicts s of
        Some brdicts \<Rightarrow> (Inr brdicts, s)
      | None \<Rightarrow>
          (let s1 = log_call Call_data_get_buildrequests s in
           case data_get_buildrequests E of
             Inl e \<Rightarrow> (Inl e, s1)
           | Inr brdicts \<Rightarrow>
               (let sorted_brdicts = sort_key buildrequestid brdicts
                in (Inr sorted_brdicts, s1\<lparr>unclaimedBrdicts := Some sorted_brdicts\<rparr>))))"

text \<open>\<^verbatim>\<open>_getBuildRequestForBrdict\<close>.\<close>

definition BuildRequestModel_of :: "brdict \<Rightarrow> string \<Rightarrow> BuildRequestModel" where
  "BuildRequestModel_of brd name = brdict.extend brd \<lparr>buildername = name\<rparr>"

definition getBuildRequestForBrdict ::
  "chooser_env \<Rightarrow> brdict \<Rightarrow> chooser \<Rightarrow> (exn + BuildRequest option) \<times> chooser" where
  "getBuildRequestForBrdict E brd s =
     (case breqCache s (buildrequestid brd) of
        Some breq \<Rightarrow> (Inr (Some breq), s)
      | None \<Rightarrow>
          (case data_get_builder E (builderid brd) of
             Inl e \<Rightarrow> (Inl e, s)
           | Inr None \<Rightarrow> (Inr None, s)
           | Inr (Some name) \<Rightarrow>
               (let model = BuildRequestModel_of brd name in
                case fromBrdict E model of
                  Inl e \<Rightarrow> (Inl e, s)
                | Inr None \<Rightarrow> (Inr None, s)
                | Inr (Some breq) \<Rightarrow>
                    (Inr (Some breq),
                     s\<lparr>breqCache := (breqCache s)(buildrequestid model \<mapsto> breq)\<rparr>))))"

text \<open>
  \<^verbatim>\<open>_getBrdictForBuildRequest\<close>: the first cached brdict with the request's id. The cache
  has been fetched when this runs; on \<^verbatim>\<open>None\<close> the Python loop would raise TypeError.
\<close>

definition getBrdictForBuildRequest :: "BuildRequest option \<Rightarrow> chooser \<Rightarrow> brdict option" where
  "getBrdictForBuildRequest breq s =
     (case breq of
        None \<Rightarrow> None
      | Some b \<Rightarrow>
          (case unclaimedBrdicts s of
             None \<Rightarrow> None
           | Some brdicts \<Rightarrow> find (\<lambda>brd. br_id b = buildrequestid brd) brdicts))"

text \<open>
  \<^verbatim>\<open>_removeBuildRequest\<close>: \<^verbatim>\<open>list.remove\<close> drops the first element equal to the brdict
  (\<open>remove1\<close>), \<^verbatim>\<open>del self.breqCache[breq.id]\<close> drops the memo.
\<close>

definition removeBuildRequest :: "BuildRequest option \<Rightarrow> chooser \<Rightarrow> chooser" where
  "removeBuildRequest breq s =
     (case breq of
        None \<Rightarrow> s
      | Some b \<Rightarrow>
          (let s1 = (case getBrdictForBuildRequest breq s of
                       None \<Rightarrow> s
                     | Some brd \<Rightarrow> s\<lparr>unclaimedBrdicts := map_option (remove1 brd) (unclaimedBrdicts s)\<rparr>)
           in s1\<lparr>breqCache := (breqCache s1)(br_id b := None)\<rparr>))"

text \<open>
  \<^verbatim>\<open>_getUnclaimedBuildRequests\<close>: the list comprehension starts
  \<^verbatim>\<open>_getBuildRequestForBrdict\<close> for every cached brdict, in order; each call leaves its
  memo in \<open>breqCache\<close>. \<^verbatim>\<open>defer.gatherResults\<close> then gives the list of all results when
  every call succeeded, and fails with \<^verbatim>\<open>FirstError\<close> as soon as one call has failed
  (\<^verbatim>\<open>consumeErrors=True\<close> only silences the failed Deferred's own unhandled-error log).
  \<open>resolve_each\<close> is the comprehension, \<open>gatherResults\<close> the join.
\<close>

fun resolve_each ::
  "chooser_env \<Rightarrow> brdict list \<Rightarrow> chooser \<Rightarrow> (exn + BuildRequest option) list \<times> chooser" where
  "resolve_each E [] s = ([], s)"
| "resolve_each E (brd # brds) s =
     (case getBuildRequestForBrdict E brd s of
        (r, s1) \<Rightarrow> (case resolve_each E brds s1 of (rs, s2) \<Rightarrow> (r # rs, s2)))"

fun gatherResults_from :: "nat \<Rightarrow> (exn + 'a) list \<Rightarrow> exn + 'a list" where
  "gatherResults_from i [] = Inr []"
| "gatherResults_from i (Inl e # rs) = Inl (FirstError e i)"
| "gatherResults_from i (Inr x # rs) =
     (case gatherResults_from (Suc i) rs of Inl e \<Rightarrow> Inl e | Inr xs \<Rightarrow> Inr (x # xs))"

definition gatherResults :: "(exn + 'a) list \<Rightarrow> exn + 'a list" where
  "gatherResults rs = gatherResults_from 0 rs"

definition getUnclaimedBuildRequests ::
  "chooser_env \<Rightarrow> chooser \<Rightarrow> (exn + BuildRequest option list) \<times> chooser" where
  "getUnclaimedBuildRequests E s =
     (case resolve_each E (case unclaimedBrdicts s of None \<Rightarrow> [] | Some brdicts \<Rightarrow> brdicts) s of
        (rs, s1) \<Rightarrow> (gatherResults rs, s1))"

text \<open>
  \<^verbatim>\<open>_getNextUnclaimedBuildRequest\<close>. With a \<^verbatim>\<open>nextBuild\<close> policy the gathered list is
  awaited outside the \<^verbatim>\<open>try\<close>, so its failure propagates; the policy's own exception is
  caught and gives \<^verbatim>\<open>None\<close>. Without a policy,
  \<^verbatim>\<open>sorted(..., key=priority, reverse=True)[0]\<close> is the first brdict of highest priority
  (the sort is stable also with \<^verbatim>\<open>reverse=True\<close>).
\<close>

definition getNextUnclaimedBuildRequest ::
  "chooser_env \<Rightarrow> chooser \<Rightarrow> (exn + BuildRequest option) \<times> chooser" where
  "getNextUnclaimedBuildRequest E s =
     (case fetchUnclaimedBrdicts E s of
        (Inl e, s1) \<Rightarrow> (Inl e, s1)
      | (Inr brdicts, s1) \<Rightarrow>
          if brdicts = [] then (Inr None, s1)
          else
            (case nextBuild E of
               Some policy \<Rightarrow>
                 (case getUnclaimedBuildRequests E s1 of
                    (Inl e, s2) \<Rightarrow> (Inl e, s2)
                  | (Inr breqs, s2) \<Rightarrow>
                      (let s3 = log_call (Call_nextBuild breqs) s2 in
                       case policy breqs of
                         Inl e \<Rightarrow> (Inr None, s3)
                       | Inr nextBreq \<Rightarrow>
                           (Inr (if nextBreq \<in> set breqs then nextBreq else None), s3)))
             | None \<Rightarrow>
                 (case sort_key (\<lambda>b. - priority b) brdicts of
                    [] \<Rightarrow> (Inl IndexError, s1)
                  | brd # _ \<Rightarrow> getBuildRequestForBrdict E brd s1)))"

text \<open>
  \<^verbatim>\<open>_popNextWorker\<close>. The \<^verbatim>\<open>while self.workerpool\<close> loop leaves in its first pass on
  every path, so it is a conditional. An exception of the policy is caught and gives
  \<^verbatim>\<open>None\<close>.
\<close>

definition popNextWorker :: "chooser_env \<Rightarrow> BuildRequest \<Rightarrow> chooser \<Rightarrow> worker option \<times> chooser" where
  "popNextWorker E buildrequest s =
     (case preferredWorkers s of
        w # ws \<Rightarrow> (Some w, s\<lparr>preferredWorkers := ws\<rparr>)
      | [] \<Rightarrow>
          if workerpool s = [] then (None, s)
          else
            (let s1 = log_call (Call_nextWorker (workerpool s) buildrequest) s;
                 worker = (case nextWorker E (workerpool s) buildrequest of
                             Inl e \<Rightarrow> None
                           | Inr w \<Rightarrow> w)
             in case worker of
                  None \<Rightarrow> (None, s1)
                | Some w \<Rightarrow>
                    if w \<notin> set (workerpool s) then (None, s1)
                    else (Some w, s1\<lparr>workerpool := remove1 w (workerpool s)\<rparr>)))"

text \<open>\<^verbatim>\<open>_unpopWorkers\<close>: \<^verbatim>\<open>self.preferredWorkers[:0] = workers\<close>.\<close>

definition unpopWorkers :: "worker list \<Rightarrow> chooser \<Rightarrow> chooser" where
  "unpopWorkers workers s = s\<lparr>preferredWorkers := workers @ preferredWorkers s\<rparr>"

text \<open>\<^verbatim>\<open>BasicBuildChooser.canStartBuild\<close>: delegates to the builder.\<close>

definition chooser_canStartBuild ::
  "chooser_env \<Rightarrow> worker \<Rightarrow> BuildRequest \<Rightarrow> chooser \<Rightarrow> (exn + bool) \<times> chooser" where
  "chooser_canStartBuild E worker breq s =
     (canStartBuild E worker breq, log_call (Call_canStartBuild worker breq) s)"

text \<open>
  Step 3 of \<^verbatim>\<open>popNextBuild\<close>, the loop \<^verbatim>\<open>while worker:\<close>. It is entered with a worker;
  the result is the worker the loop leaves with (\<open>None\<close> when \<^verbatim>\<open>_popNextWorker\<close> gave
  none), the local list \<^verbatim>\<open>recycledWorkers\<close> and the chooser. An exception of
  \<^verbatim>\<open>canStartBuild\<close> leaves the loop and \<^verbatim>\<open>popNextBuild\<close>.
\<close>

function tryWorkers ::
  "chooser_env \<Rightarrow> BuildRequest \<Rightarrow> worker \<Rightarrow> worker list \<Rightarrow> chooser
     \<Rightarrow> (exn + worker option) \<times> worker list \<times> chooser" where
  "tryWorkers E breq worker recycledWorkers s =
     (case chooser_canStartBuild E worker breq s of
        (Inl e, s1) \<Rightarrow> (Inl e, recycledWorkers, s1)
      | (Inr canStart, s1) \<Rightarrow>
          if canStart then (Inr (Some worker), recycledWorkers, s1)
          else
            (case popNextWorker E breq s1 of
               (None, s2) \<Rightarrow> (Inr None, recycledWorkers @ [worker], s2)
             | (Some w, s2) \<Rightarrow> tryWorkers E breq w (recycledWorkers @ [worker]) s2))"
  by pat_completeness auto
termination
proof (relation "measure (\<lambda>(E, breq, worker, recycledWorkers, s).
                   length (preferredWorkers s) + length (workerpool s))")
  show "wf (measure (\<lambda>(E, breq, worker, recycledWorkers, s).
              length (preferredWorkers s) + length (workerpool s)))"
    by simp
next
  fix E :: chooser_env and breq worker and recycledWorkers :: "worker list"
    and s :: chooser and x1 s1 canStart x s2 w
  assume c: "(x1, s1) = chooser_canStartBuild E worker breq s"
    and p: "(x, s2) = popNextWorker E breq s1" "x = Some w"
  from c have s1: "preferredWorkers s1 = preferredWorkers s" "workerpool s1 = workerpool s"
    by (simp_all add: chooser_canStartBuild_def log_call_def)
  from p have "length (preferredWorkers s2) + length (workerpool s2)
      < length (preferredWorkers s1) + length (workerpool s1)"
    by (auto simp: popNextWorker_def log_call_def Let_def length_remove1
        split: list.splits if_splits option.splits sum.splits)
  with s1 show "((E, breq, w, recycledWorkers @ [worker], s2), (E, breq, worker, recycledWorkers, s))
      \<in> measure (\<lambda>(E, breq, worker, recycledWorkers, s).
           length (preferredWorkers s) + length (workerpool s))"
    by simp
qed

declare tryWorkers.simps [simp del]

text \<open>
  \<^verbatim>\<open>popNextBuild\<close>, the loop \<^verbatim>\<open>while True:\<close>. The result is \<open>None\<close> when the loop never
  ends, and otherwise the exception or the pair \<^verbatim>\<open>nextBuild\<close>, with the chooser as the
  call leaves it. When \<^verbatim>\<open>canStartBuild\<close> raises, the recycled workers are not pushed back.
\<close>

partial_function (option) popNextBuild ::
  "chooser_env \<Rightarrow> chooser
     \<Rightarrow> ((exn + worker option \<times> BuildRequest option) \<times> chooser) option" where
  "popNextBuild E s =
     (case getNextUnclaimedBuildRequest E s of
        (Inl e, s1) \<Rightarrow> Some (Inl e, s1)
      | (Inr None, s1) \<Rightarrow> Some (Inr (None, None), s1)
      | (Inr (Some breq), s1) \<Rightarrow>
          (let s2 = (if workerpool s1 = [] \<and> preferredWorkers s1 = []
                     then s1\<lparr>workerpool := getAvailableWorkers E\<rparr> else s1)
           in case popNextWorker E breq s2 of
                (None, s3) \<Rightarrow> Some (Inr (None, None), s3)
              | (Some worker, s3) \<Rightarrow>
                  (let s4 = removeBuildRequest (Some breq) s3
                   in case tryWorkers E breq worker [] s4 of
                        (Inl e, recycledWorkers, s5) \<Rightarrow> Some (Inl e, s5)
                      | (Inr found, recycledWorkers, s5) \<Rightarrow>
                          (let s6 = (if recycledWorkers \<noteq> []
                                     then unpopWorkers recycledWorkers s5 else s5)
                           in case found of
                                Some w \<Rightarrow> Some (Inr (Some w, Some breq), s6)
                              | None \<Rightarrow> popNextBuild E s6))))"

text \<open>\<^verbatim>\<open>chooseNextBuild\<close>: the pair \<^verbatim>\<open>(worker, [breq])\<close> or \<^verbatim>\<open>(None, None)\<close>.\<close>

definition chooseNextBuild ::
  "chooser_env \<Rightarrow> chooser
     \<Rightarrow> ((exn + worker option \<times> BuildRequest list option) \<times> chooser) option" where
  "chooseNextBuild E s =
     (case popNextBuild E s of
        None \<Rightarrow> None
      | Some (Inl e, s1) \<Rightarrow> Some (Inl e, s1)
      | Some (Inr (Some worker, Some breq), s1) \<Rightarrow> Some (Inr (Some worker, Some [breq]), s1)
      | Some (Inr _, s1) \<Rightarrow> Some (Inr (None, None), s1))"

section \<open>The distributor\<close>

subsection \<open>Sorting the builders\<close>

text \<open>
  A builder as the sorter reads it: its name, \<^verbatim>\<open>get_highest_priority()\<close> and
  \<^verbatim>\<open>getOldestRequestTime()\<close>, both \<^verbatim>\<open>None\<close> for a builder with no pending request. Times
  are epoch seconds (\<^verbatim>\<open>datetime.timestamp()\<close>), whole numbers here.
\<close>

record Builder =
  name :: string
  get_highest_priority :: "int option"
  getOldestRequestTime :: "int option"

text \<open>A number or \<^verbatim>\<open>math.inf\<close> or \<^verbatim>\<open>-math.inf\<close>, with Python's order and negation.\<close>

datatype ext = MInf | Fin int | PInf

fun neg :: "ext \<Rightarrow> ext" where
  "neg MInf = PInf"
| "neg (Fin i) = Fin (- i)"
| "neg PInf = MInf"

instantiation ext :: linorder
begin

fun less_eq_ext :: "ext \<Rightarrow> ext \<Rightarrow> bool" where
  "less_eq_ext MInf y = True"
| "less_eq_ext (Fin a) MInf = False"
| "less_eq_ext (Fin a) (Fin b) = (a \<le> b)"
| "less_eq_ext (Fin a) PInf = True"
| "less_eq_ext PInf MInf = False"
| "less_eq_ext PInf (Fin b) = False"
| "less_eq_ext PInf PInf = True"

definition less_ext :: "ext \<Rightarrow> ext \<Rightarrow> bool" where
  "less_ext x y = (x \<le> y \<and> \<not> y \<le> x)"

instance
proof
  fix x y z :: ext
  show "(x < y) = (x \<le> y \<and> \<not> y \<le> x)"
    by (simp add: less_ext_def)
  show "x \<le> x"
    by (cases x) simp_all
  show "x \<le> y \<Longrightarrow> y \<le> z \<Longrightarrow> x \<le> z"
    by (cases x; cases y; cases z) simp_all
  show "x \<le> y \<Longrightarrow> y \<le> x \<Longrightarrow> x = y"
    by (cases x; cases y) simp_all
  show "x \<le> y \<or> y \<le> x"
    by (cases x; cases y) auto
qed

end

text \<open>The function \<^verbatim>\<open>key(bldr)\<close> of \<^verbatim>\<open>_defaultSorter\<close>.\<close>

definition key :: "Builder \<Rightarrow> ext \<times> ext \<times> string" where
  "key bldr =
     (let priority = (case get_highest_priority bldr of None \<Rightarrow> MInf | Some p \<Rightarrow> Fin p);
          time = (case getOldestRequestTime bldr of None \<Rightarrow> PInf | Some t \<Rightarrow> Fin t)
      in (neg priority, time, name bldr))"

text \<open>
  Modelled from the spec: \<^verbatim>\<open>buildbot.util.async_sort\<close> is not among the sources. It sorts
  the list in place by the awaited keys, ascending, as \<^verbatim>\<open>list.sort(key=...)\<close> does.
\<close>

definition async_sort :: "'a list \<Rightarrow> ('a \<Rightarrow> 'k::linorder) \<Rightarrow> 'a list" where
  "async_sort l k = sort_key k l"

definition defaultSorter :: "Builder list \<Rightarrow> Builder list" where
  "defaultSorter builders = async_sort builders key"

text \<open>
  \<^verbatim>\<open>_sortBuilders\<close>: names unknown to the botmaster are dropped; a failing sorter leaves
  the order as it was.
\<close>

record sort_env =
  botmaster_builders :: "string \<rightharpoonup> Builder"
  prioritizeBuilders :: "(Builder list \<Rightarrow> exn + Builder list) option"

definition sortBuilders :: "sort_env \<Rightarrow> string list \<Rightarrow> string list" where
  "sortBuilders C buildernames =
     (let builders = List.map_filter (botmaster_builders C) buildernames;
          sorter = (case prioritizeBuilders C of
                      None \<Rightarrow> (\<lambda>bs. Inr (defaultSorter bs))
                    | Some f \<Rightarrow> f);
          builders' = (case sorter builders of Inl e \<Rightarrow> builders | Inr bs \<Rightarrow> bs)
      in map name builders')"

subsection \<open>The signal that builders need attention\<close>

text \<open>
  The attributes of the \<^verbatim>\<open>BuildRequestDistributor\<close> and what it does to the botmaster:
  \<^item> \<open>pending_builders\<close>: \<^verbatim>\<open>self._pending_builders\<close>;
  \<^item> \<open>active\<close>: \<^verbatim>\<open>self.active\<close>;
  \<^item> \<open>loops_started\<close>: how often \<^verbatim>\<open>defer.ensureDeferred(self._activityLoop())\<close> ran;
  \<^item> \<open>brd_name\<close>: \<^verbatim>\<open>self.name\<close>, the name of the distributor service;
  \<^item> \<open>distribute_only_waited_childs\<close>: the attribute of that name;
  \<^item> \<open>in_progress\<close>: the ids the botmaster holds as in progress;
  \<^item> \<open>signalled\<close>: the arguments of the calls \<^verbatim>\<open>botmaster.maybeStartBuildsForBuilder\<close>.
\<close>

record brd_state =
  pending_builders :: "string list"
  active :: bool
  loops_started :: nat
  brd_name :: string
  distribute_only_waited_childs :: bool
  in_progress :: "int set"
  signalled :: "string list"

text \<open>
  \<^verbatim>\<open>_maybeStartBuildsOn\<close>. \<^verbatim>\<open>new_builder_set < existing_pending\<close> is Python's proper
  subset. \<^verbatim>\<open>list(existing_pending | new_builder_set)\<close> lists the union in an order Python
  leaves open; the order here is that of first occurrence. Starting \<^verbatim>\<open>_activityLoop\<close>
  runs it to its first suspension, after \<^verbatim>\<open>self.active = True\<close>.
\<close>

definition maybeStartBuildsOn :: "sort_env \<Rightarrow> string list \<Rightarrow> brd_state \<Rightarrow> brd_state" where
  "maybeStartBuildsOn C new_builders st =
     (let new_builder_set = set new_builders;
          existing_pending = set (pending_builders st)
      in if new_builder_set \<subset> existing_pending then st
         else
           (let st1 = st\<lparr>pending_builders :=
                          sortBuilders C (remdups (pending_builders st @ new_builders))\<rparr>
            in if \<not> active st1
               then st1\<lparr>active := True, loops_started := Suc (loops_started st1)\<rparr>
               else st1))"

subsection \<open>Dispatch on one builder\<close>

text \<open>
  Modelled from the spec: the botmaster (\<^verbatim>\<open>buildbot/process/botmaster.py\<close>) is not among
  the sources. \<^verbatim>\<open>add_in_progress_buildrequest\<close> marks an id as in progress,
  \<^verbatim>\<open>remove_in_progress_buildrequest\<close> clears the mark, and
  \<^verbatim>\<open>maybeStartBuildsForBuilder(name)\<close> signals that the builder of that name needs
  attention.
\<close>

definition add_in_progress_buildrequest :: "int \<Rightarrow> brd_state \<Rightarrow> brd_state" where
  "add_in_progress_buildrequest brid st = st\<lparr>in_progress := insert brid (in_progress st)\<rparr>"

definition remove_in_progress_buildrequest :: "int \<Rightarrow> brd_state \<Rightarrow> brd_state" where
  "remove_in_progress_buildrequest brid st = st\<lparr>in_progress := in_progress st - {brid}\<rparr>"

definition maybeStartBuildsForBuilder :: "string \<Rightarrow> brd_state \<Rightarrow> brd_state" where
  "maybeStartBuildsForBuilder bn st = st\<lparr>signalled := signalled st @ [bn]\<rparr>"

text \<open>\<^verbatim>\<open>_add_in_progress_brids\<close> and \<^verbatim>\<open>_remove_in_progress_brids\<close>.\<close>

definition add_in_progress_brids :: "int list \<Rightarrow> brd_state \<Rightarrow> brd_state" where
  "add_in_progress_brids brids st = fold add_in_progress_buildrequest brids st"

definition remove_in_progress_brids :: "int list \<Rightarrow> brd_state \<Rightarrow> brd_state" where
  "remove_in_progress_brids brids st = fold remove_in_progress_buildrequest brids st"

text \<open>
  What one dispatch on a builder talks to, over a state \<open>'w\<close> of the world outside the
  distributor (the store, the workers):
  \<^item> \<open>chooser_env_of\<close>: the collaborators of a chooser as they answer in that world;
  \<^item> \<open>data_get_buildsets\<close>: of the given buildset ids, those with a parent build;
  \<^item> \<open>claimBuildRequests\<close>, \<open>unclaimBuildRequests\<close>: \<^verbatim>\<open>master.data.updates\<close>;
  \<^item> \<open>maybeStartBuild\<close>: \<^verbatim>\<open>bldr.maybeStartBuild(worker, breqs)\<close>.
\<close>

record 'w dispatch_env =
  chooser_env_of :: "'w \<Rightarrow> chooser_env"
  data_get_buildsets :: "int set \<Rightarrow> 'w \<Rightarrow> exn + int list"
  claimBuildRequests :: "int list \<Rightarrow> 'w \<Rightarrow> (exn + bool) \<times> 'w"
  unclaimBuildRequests :: "int list \<Rightarrow> 'w \<Rightarrow> 'w"
  maybeStartBuild :: "worker \<Rightarrow> BuildRequest list \<Rightarrow> 'w \<Rightarrow> (exn + bool) \<times> 'w"

text \<open>
  The filter of the mode \<^verbatim>\<open>distribute_only_waited_childs\<close>. The empty list stands for
  both \<^verbatim>\<open>continue\<close> statements; outside the mode the requests pass unchanged.
\<close>

definition only_waited_childs ::
  "'w dispatch_env \<Rightarrow> 'w \<Rightarrow> brd_state \<Rightarrow> BuildRequest list \<Rightarrow> exn + BuildRequest list" where
  "only_waited_childs D w st breqs =
     (if distribute_only_waited_childs st then
        (let buildset_ids = set (map br_bsid (filter br_waited_for breqs))
         in if buildset_ids = {} then Inr []
            else
              (case data_get_buildsets D buildset_ids w of
                 Inl e \<Rightarrow> Inl e
               | Inr parented_buildset_ids \<Rightarrow>
                   Inr (filter (\<lambda>br. br_bsid br \<in> set parented_buildset_ids) breqs)))
      else Inr breqs)"

text \<open>
  \<^verbatim>\<open>_maybeStartBuildsOnBuilder\<close>: \<open>dispatch\<close> is its loop \<^verbatim>\<open>while True:\<close> from a chooser
  \<open>bc\<close>. The result is \<open>None\<close> when the loop never ends, and otherwise the exception that
  left it (if any), the world and the distributor.
\<close>

partial_function (option) dispatch ::
  "'w dispatch_env \<Rightarrow> chooser \<Rightarrow> 'w \<Rightarrow> brd_state \<Rightarrow> (exn option \<times> 'w \<times> brd_state) option" where
  "dispatch D bc w st =
     (case chooseNextBuild (chooser_env_of D w) bc of
        None \<Rightarrow> None
      | Some (Inl e, bc1) \<Rightarrow> Some (Some e, w, st)
      | Some (Inr (None, _), bc1) \<Rightarrow> Some (None, w, st)
      | Some (Inr (Some worker, None), bc1) \<Rightarrow> Some (None, w, st)
      | Some (Inr (Some worker, Some breqs0), bc1) \<Rightarrow>
          if breqs0 = [] then Some (None, w, st)
          else
            (case only_waited_childs D w st breqs0 of
               Inl e \<Rightarrow> Some (Some e, w, st)
             | Inr [] \<Rightarrow> dispatch D bc1 w st
             | Inr (breq # others) \<Rightarrow>
                 (let breqs = breq # others;
                      brids = map br_id breqs;
                      st1 = add_in_progress_brids brids st
                  in case claimBuildRequests D brids w of
                       (Inl e, w1) \<Rightarrow> Some (Some e, w1, st1)
                     | (Inr claimed, w1) \<Rightarrow>
                         if \<not> claimed
                         then dispatch D (BasicBuildChooser (chooser_env_of D w1)) w1 st1
                         else
                           (case maybeStartBuild D worker breqs w1 of
                              (Inl e, w2) \<Rightarrow> Some (Some e, w2, st1)
                            | (Inr buildStarted, w2) \<Rightarrow>
                                if \<not> buildStarted
                                then
                                  dispatch D bc1 (unclaimBuildRequests D brids w2)
                                    (maybeStartBuildsForBuilder (brd_name st1)
                                       (remove_in_progress_brids brids st1))
                                else dispatch D bc1 w2 st1))))"

definition maybeStartBuildsOnBuilder ::
  "'w dispatch_env \<Rightarrow> 'w \<Rightarrow> brd_state \<Rightarrow> (exn option \<times> 'w \<times> brd_state) option" where
  "maybeStartBuildsOnBuilder D w st = dispatch D (BasicBuildChooser (chooser_env_of D w)) w st"

section \<open>The Triggerable scheduler\<close>

text \<open>
  The waiters of a \<^verbatim>\<open>Triggerable\<close>: \<^verbatim>\<open>self._waiters\<close> maps a buildset id to the result
  Deferred (a handle, a number here) and the request ids of the triggered buildset.
  \<open>consuming\<close> says whether \<^verbatim>\<open>self._buildset_complete_consumer\<close> is set. \<open>fired\<close> lists
  the calls \<^verbatim>\<open>d.callback(value)\<close> made so far, latest last.
\<close>

type_synonym deferred = nat

record triggerable =
  waiters :: "int \<rightharpoonup> deferred \<times> int list"
  consuming :: bool
  fired :: "(deferred \<times> int \<times> int list) list"

text \<open>The message of a completed buildset: \<^verbatim>\<open>msg['bsid']\<close> and \<^verbatim>\<open>msg['results']\<close>.\<close>

record msg =
  bsid :: int
  results :: int

text \<open>
  \<^verbatim>\<open>_updateWaiters\<close>. The method is debounced with \<^verbatim>\<open>wait=0\<close>; its effect is taken at
  the call.
\<close>

definition updateWaiters :: "triggerable \<Rightarrow> triggerable" where
  "updateWaiters s =
     (if waiters s \<noteq> Map.empty \<and> \<not> consuming s then s\<lparr>consuming := True\<rparr>
      else if waiters s = Map.empty \<and> consuming s then s\<lparr>consuming := False\<rparr>
      else s)"

text \<open>
  \<^verbatim>\<open>setup_waiter\<close>, the callback \<^verbatim>\<open>trigger\<close> adds to \<^verbatim>\<open>idsDeferred\<close>, for the fresh
  \<^verbatim>\<open>resultsDeferred\<close> \<open>d\<close>.
\<close>

definition setup_waiter :: "deferred \<Rightarrow> int \<times> int list \<Rightarrow> triggerable \<Rightarrow> triggerable" where
  "setup_waiter d ids s =
     (case ids of (bs, brids) \<Rightarrow> updateWaiters (s\<lparr>waiters := (waiters s)(bs \<mapsto> (d, brids))\<rparr>))"

text \<open>\<^verbatim>\<open>_buildset_complete_cb\<close>.\<close>

definition buildset_complete_cb :: "msg \<Rightarrow> triggerable \<Rightarrow> triggerable" where
  "buildset_complete_cb m s =
     (case waiters s (bsid m) of
        None \<Rightarrow> s
      | Some (d, brids) \<Rightarrow>
          (let s1 = updateWaiters (s\<lparr>waiters := (waiters s)(bsid m := None)\<rparr>)
           in s1\<lparr>fired := fired s1 @ [(d, results m, brids)]\<rparr>))"

section \<open>Example collaborators\<close>

text \<open>Requests, a resolver that builds the request of a model, and three small setups.\<close>

definition brdict_of :: "int \<Rightarrow> int \<Rightarrow> int \<Rightarrow> brdict" where
  "brdict_of i t p =
     \<lparr>buildrequestid = i, buildsetid = 100 + i, builderid = 7, submitted_at = t,
      priority = p, waited_for = False\<rparr>"

definition breq_of :: "int \<Rightarrow> int \<Rightarrow> BuildRequest" where
  "breq_of i p =
     \<lparr>br_id = i, br_bsid = 100 + i, br_buildername = ''bldr'', br_priority = p,
      br_waited_for = False\<rparr>"

definition resolve_model :: "BuildRequestModel \<Rightarrow> exn + BuildRequest option" where
  "resolve_model m =
     Inr (Some \<lparr>br_id = buildrequestid m, br_bsid = buildsetid m,
                br_buildername = buildername m, br_priority = priority m,
                br_waited_for = waited_for m\<rparr>)"

text \<open>
  A store holding \<open>brdicts\<close>, workers \<open>ws\<close>, a next-worker policy \<open>pol\<close> and a feasibility
  check \<open>can\<close>; no \<^verbatim>\<open>nextBuild\<close> policy.
\<close>

definition env_of ::
  "brdict list \<Rightarrow> worker list \<Rightarrow> (worker list \<Rightarrow> BuildRequest \<Rightarrow> exn + worker option)
     \<Rightarrow> (worker \<Rightarrow> BuildRequest \<Rightarrow> exn + bool) \<Rightarrow> chooser_env" where
  "env_of brdicts ws pol can =
     \<lparr>data_get_buildrequests = Inr brdicts,
      data_get_builder = (\<lambda>i. Inr (Some ''bldr'')),
      fromBrdict = resolve_model,
      nextBuild = None,
      nextWorker = pol,
      getAvailableWorkers = ws,
      canStartBuild = can\<rparr>"

text \<open>The policy that takes the first worker of the pool.\<close>

definition first_worker :: "worker list \<Rightarrow> BuildRequest \<Rightarrow> exn + worker option" where
  "first_worker pool breq = Inr (case pool of [] \<Rightarrow> None | w # _ \<Rightarrow> Some w)"

text \<open>A store whose request ids do not follow the submission times.\<close>

definition env_late_first :: chooser_env where
  "env_late_first =
     env_of [brdict_of 1 10 0, brdict_of 2 5 0] [] first_worker (\<lambda>w b. Inr True)"

text \<open>The builders A, B and C of the sorter's example.\<close>

definition bldrA :: Builder where
  "bldrA = \<lparr>name = ''A'', get_highest_priority = Some 10, getOldestRequestTime = Some 5\<rparr>"

definition bldrB :: Builder where
  "bldrB = \<lparr>name = ''B'', get_highest_priority = Some 10, getOldestRequestTime = Some 1\<rparr>"

definition bldrC :: Builder where
  "bldrC = \<lparr>name = ''C'', get_highest_priority = None, getOldestRequestTime = None\<rparr>"

text \<open>A Triggerable with no waiter, and the completion message of buildset 100.\<close>

definition no_waiters :: triggerable where
  "no_waiters = \<lparr>waiters = Map.empty, consuming = False, fired = []\<rparr>"

definition msg100 :: "int \<Rightarrow> msg" where
  "msg100 r = \<lparr>bsid = 100, results = r\<rparr>"

text \<open>
  A chooser with a \<^verbatim>\<open>nextBuild\<close> policy (the first request of the list) whose resolver
  raises for request 1, and one whose data API knows no builder 8.
\<close>

definition resolve_failing_1 :: "BuildRequestModel \<Rightarrow> exn + BuildRequest option" where
  "resolve_failing_1 m =
     (if buildrequestid m = 1 then Inl (Exception ''resolution failed'') else resolve_model m)"

definition first_breq :: "BuildRequest option list \<Rightarrow> exn + BuildRequest option" where
  "first_breq breqs = Inr (case breqs of [] \<Rightarrow> None | b # _ \<Rightarrow> b)"

definition env_resolution_fault :: chooser_env where
  "env_resolution_fault =
     (env_of [brdict_of 1 0 0, brdict_of 2 0 0] [1] first_worker (\<lambda>w b. Inr True))
       \<lparr>fromBrdict := resolve_failing_1, nextBuild := Some first_breq\<rparr>"

definition env_unknown_builder :: chooser_env where
  "env_unknown_builder =
     (env_of [(brdict_of 1 0 0)\<lparr>builderid := 8\<rparr>, brdict_of 2 0 0] [1] first_worker
        (\<lambda>w b. Inr True))
       \<lparr>data_get_builder := (\<lambda>i. Inr (if i = 8 then None else Some ''bldr'')),
        nextBuild := Some first_breq\<rparr>"

text \<open>The chooser after its first fetch.\<close>

definition fetched :: "chooser_env \<Rightarrow> chooser" where
  "fetched E = snd (fetchUnclaimedBrdicts E (BasicBuildChooser E))"

text \<open>
  A world for one builder: the requests of the store and the ids claimed so far. One worker
  is available and can start every request. \<open>store_claim\<close> is the store's claim,
  \<open>store_claim_after_other_master\<close> the same claim arriving after another master has
  claimed the ids.
\<close>

record world =
  requests :: "brdict list"
  claimed :: "int list"

definition world_env :: "world \<Rightarrow> chooser_env" where
  "world_env w =
     env_of (filter (\<lambda>b. buildrequestid b \<notin> set (claimed w)) (requests w)) [1]
       first_worker (\<lambda>wk b. Inr True)"

definition store_claim :: "int list \<Rightarrow> world \<Rightarrow> (exn + bool) \<times> world" where
  "store_claim brids w =
     (if \<exists>i \<in> set brids. i \<in> set (claimed w) then (Inr False, w)
      else (Inr True, w\<lparr>claimed := claimed w @ brids\<rparr>))"

definition store_claim_after_other_master :: "int list \<Rightarrow> world \<Rightarrow> (exn + bool) \<times> world" where
  "store_claim_after_other_master brids w = store_claim brids (w\<lparr>claimed := claimed w @ brids\<rparr>)"

definition store_unclaim :: "int list \<Rightarrow> world \<Rightarrow> world" where
  "store_unclaim brids w = w\<lparr>claimed := filter (\<lambda>i. i \<notin> set brids) (claimed w)\<rparr>"

definition dispatch_env_of ::
  "(int list \<Rightarrow> world \<Rightarrow> (exn + bool) \<times> world) \<Rightarrow> bool \<Rightarrow> world dispatch_env" where
  "dispatch_env_of claim starts =
     \<lparr>chooser_env_of = world_env,
      data_get_buildsets = (\<lambda>ids w. Inr []),
      claimBuildRequests = claim,
      unclaimBuildRequests = store_unclaim,
      maybeStartBuild = (\<lambda>wk breqs w. (Inr starts, w))\<rparr>"

text \<open>One unclaimed request, an idle distributor and a botmaster with the builders A, B, C.\<close>

definition one_request :: world where
  "one_request = \<lparr>requests = [brdict_of 1 0 0], claimed = []\<rparr>"

definition idle :: "string list \<Rightarrow> brd_state" where
  "idle pending =
     \<lparr>pending_builders = pending, active = False, loops_started = 0,
      brd_name = ''BuildRequestDistributor'', distribute_only_waited_childs = False,
      in_progress = {}, signalled = []\<rparr>"

definition three_builders :: sort_env where
  "three_builders =
     \<lparr>botmaster_builders = map_of [(''A'', bldrA), (''B'', bldrB), (''C'', bldrC)],
      prioritizeBuilders = None\<rparr>"




text \<open>
  Three requests, the workers 1 and 2, a next-worker policy that always returns worker 1,
  and a builder that can start nothing.
\<close>

definition env_same_worker :: chooser_env where
  "env_same_worker =
     env_of [brdict_of 1 0 0, brdict_of 2 0 0, brdict_of 3 0 0] [1, 2]
       (\<lambda>pool b. Inr (Some 1)) (\<lambda>w b. Inr False)"

section \<open>Notions for the chooser's properties\<close>

text \<open>
  Read off the log of calls: the invocations of the next-worker policy; those among them
  that draw a worker, that is, return a worker of the pool they were given; and the ids of
  the requests for which a worker was checked.
\<close>

fun is_nextWorker :: "call \<Rightarrow> bool" where
  "is_nextWorker (Call_nextWorker pool b) = True"
| "is_nextWorker c = False"

fun drawn :: "chooser_env \<Rightarrow> call \<Rightarrow> bool" where
  "drawn E (Call_nextWorker pool b) =
     (case nextWorker E pool b of Inr (Some w) \<Rightarrow> w \<in> set pool | _ \<Rightarrow> False)"
| "drawn E c = False"

definition invocations :: "call list \<Rightarrow> nat" where
  "invocations cs = length (filter is_nextWorker cs)"

definition draws :: "chooser_env \<Rightarrow> call list \<Rightarrow> nat" where
  "draws E cs = length (filter (drawn E) cs)"

fun tried_id :: "call \<Rightarrow> int list" where
  "tried_id (Call_canStartBuild w b) = [br_id b]"
| "tried_id c = []"

definition tried_ids :: "call list \<Rightarrow> int list" where
  "tried_ids cs = concat (map tried_id cs)"

definition cached_ids :: "chooser \<Rightarrow> int list" where
  "cached_ids s = (case unclaimedBrdicts s of None \<Rightarrow> [] | Some brdicts \<Rightarrow> map buildrequestid brdicts)"


text \<open>
  \<open>ids_kept\<close>: \<^verbatim>\<open>BuildRequest.fromBrdict\<close> gives the request the id of its model.
  \<open>memo_ok\<close>: every request memoized in \<^verbatim>\<open>breqCache\<close> sits under its own id.
\<close>

definition ids_kept :: "chooser_env \<Rightarrow> bool" where
  "ids_kept E = (\<forall>m b. fromBrdict E m = Inr (Some b) \<longrightarrow> br_id b = buildrequestid m)"

definition memo_ok :: "chooser \<Rightarrow> bool" where
  "memo_ok s = (\<forall>k b. breqCache s k = Some b \<longrightarrow> br_id b = k)"

text \<open>
  The number of requests the chooser holds in its cache, or would fetch from the store.
\<close>

definition pending_len :: "chooser_env \<Rightarrow> chooser \<Rightarrow> nat" where
  "pending_len E s =
     (case unclaimedBrdicts s of
        Some brdicts \<Rightarrow> length brdicts
      | None \<Rightarrow> (case data_get_buildrequests E of Inl e \<Rightarrow> 0 | Inr brdicts \<Rightarrow> length brdicts))"

text \<open>
  One pass of the loop of \<^verbatim>\<open>popNextBuild\<close>, for the proofs: \<open>refill\<close> is the statement
  that fetches the available workers again when pool and preferred list are both empty,
  \<open>recycle\<close> the statement that pushes the recycled workers back. A pass is \<open>Done\<close> with
  the result of \<^verbatim>\<open>popNextBuild\<close>, or the loop goes round \<open>Again\<close>.
\<close>

definition refill :: "chooser_env \<Rightarrow> chooser \<Rightarrow> chooser" where
  "refill E s =
     (if workerpool s = [] \<and> preferredWorkers s = []
      then s\<lparr>workerpool := getAvailableWorkers E\<rparr> else s)"

definition recycle :: "worker list \<Rightarrow> chooser \<Rightarrow> chooser" where
  "recycle recycledWorkers s =
     (if recycledWorkers \<noteq> [] then unpopWorkers recycledWorkers s else s)"

datatype pass = Done "exn + worker option \<times> BuildRequest option" chooser | Again chooser

definition popNextBuild_pass :: "chooser_env \<Rightarrow> chooser \<Rightarrow> pass" where
  "popNextBuild_pass E s =
     (case getNextUnclaimedBuildRequest E s of
        (Inl e, s1) \<Rightarrow> Done (Inl e) s1
      | (Inr None, s1) \<Rightarrow> Done (Inr (None, None)) s1
      | (Inr (Some breq), s1) \<Rightarrow>
          (case popNextWorker E breq (refill E s1) of
             (None, s3) \<Rightarrow> Done (Inr (None, None)) s3
           | (Some worker, s3) \<Rightarrow>
               (case tryWorkers E breq worker [] (removeBuildRequest (Some breq) s3) of
                  (Inl e, recycledWorkers, s5) \<Rightarrow> Done (Inl e) s5
                | (Inr (Some w), recycledWorkers, s5) \<Rightarrow>
                    Done (Inr (Some w, Some breq)) (recycle recycledWorkers s5)
                | (Inr None, recycledWorkers, s5) \<Rightarrow> Again (recycle recycledWorkers s5))))"

fun pass_state :: "pass \<Rightarrow> chooser" where
  "pass_state (Done r t) = t"
| "pass_state (Again t) = t"



text \<open>
  \<open>store_ids_distinct\<close>: the store lists no request id twice. \<open>chooser_inv\<close>: what holds
  of a chooser throughout its life: the memo is sound and holds cached requests only, the
  cached ids are distinct, no request that had a worker checked is in the cache, and the
  requests that had workers checked were checked one after the other, none twice.
\<close>

definition store_ids_distinct :: "chooser_env \<Rightarrow> bool" where
  "store_ids_distinct E =
     (\<forall>brdicts. data_get_buildrequests E = Inr brdicts \<longrightarrow> distinct (map buildrequestid brdicts))"

definition chooser_inv :: "chooser \<Rightarrow> bool" where
  "chooser_inv s =
     (memo_ok s \<and> distinct (cached_ids s) \<and> dom (breqCache s) \<subseteq> set (cached_ids s)
      \<and> (\<forall>i \<in> set (tried_ids (calls s)). i \<notin> set (cached_ids s))
      \<and> distinct (remdups_adj (tried_ids (calls s)))
      \<and> (unclaimedBrdicts s = None \<longrightarrow> tried_ids (calls s) = []))"

declare popNextBuild.simps [code]

declare dispatch.simps [code]

section \<open>The unclaimed-request cache\<close>

text \<open>
  C8, as the code has it. While the cache is \<^verbatim>\<open>None\<close>, \<^verbatim>\<open>_fetchUnclaimedBrdicts\<close> reads
  the store once and keeps the result: the same requests, ascending by request id, requests
  of one id in the store's order. The submission time plays no part. Once the cache is set,
  a fetch returns it and neither reads the store nor changes the chooser, whatever the store
  holds by then; only setting the cache back to \<^verbatim>\<open>None\<close> makes the next fetch read again.
\<close>

theorem fetchUnclaimedBrdicts_by_id_memoized:
  assumes "unclaimedBrdicts s = None" and "data_get_buildrequests E = Inr brdicts"
  shows "\<exists>xs s'. fetchUnclaimedBrdicts E s = (Inr xs, s')
           \<and> sorted (map buildrequestid xs) \<and> mset xs = mset brdicts
           \<and> (\<forall>i. filter (\<lambda>b. buildrequestid b = i) xs
                   = filter (\<lambda>b. buildrequestid b = i) brdicts)
           \<and> unclaimedBrdicts s' = Some xs
           \<and> calls s' = calls s @ [Call_data_get_buildrequests]
           \<and> (\<forall>E'. fetchUnclaimedBrdicts E' s' = (Inr xs, s'))"
  using assms
  by (simp add: fetchUnclaimedBrdicts_def log_call_def Let_def sort_key_stable)

theorem fetchUnclaimedBrdicts_by_id_memoized_witness:
  "unclaimedBrdicts (BasicBuildChooser env_late_first) = None
   \<and> data_get_buildrequests env_late_first = Inr [brdict_of 1 10 0, brdict_of 2 5 0]
   \<and> (\<exists>xs s'. fetchUnclaimedBrdicts env_late_first (BasicBuildChooser env_late_first) = (Inr xs, s')
           \<and> sorted (map buildrequestid xs)
           \<and> unclaimedBrdicts s' = Some xs
           \<and> calls s' = [Call_data_get_buildrequests])"
  using fetchUnclaimedBrdicts_by_id_memoized
    [of "BasicBuildChooser env_late_first" env_late_first "[brdict_of 1 10 0, brdict_of 2 5 0]"]
  by (simp add: env_late_first_def env_of_def BasicBuildChooser_def) blast

text \<open>
  C8 as stated fails: request 1 was submitted at time 10 and request 2 at time 5; the fetch
  returns request 1 first, the one submitted later.
\<close>

theorem fetchUnclaimedBrdicts_not_by_submission_time:
  "fst (fetchUnclaimedBrdicts env_late_first (BasicBuildChooser env_late_first))
     = Inr [brdict_of 1 10 0, brdict_of 2 5 0]
   \<and> submitted_at (brdict_of 2 5 0) < submitted_at (brdict_of 1 10 0)"
  by (simp add: fetchUnclaimedBrdicts_def log_call_def Let_def env_late_first_def env_of_def
      BasicBuildChooser_def brdict_of_def)

section \<open>The default sorter\<close>

lemma key_less_pending:
  "get_highest_priority a = Some pa \<Longrightarrow> getOldestRequestTime a = Some ta \<Longrightarrow>
   get_highest_priority b = Some pb \<Longrightarrow> getOldestRequestTime b = Some tb \<Longrightarrow>
   (key a < key b) = (pb < pa \<or> (pa = pb \<and> (ta < tb \<or> (ta = tb \<and> name a < name b))))"
  by (auto simp: key_def less_ext_def less_prod_def)

lemma key_no_pending_last:
  "get_highest_priority a = Some pa \<Longrightarrow> get_highest_priority b = None \<Longrightarrow> key a < key b"
  by (auto simp: key_def less_ext_def less_prod_def)

lemma defaultSorter_ABC:
  assumes "mset builders = mset [bldrA, bldrB, bldrC]"
  shows "defaultSorter builders = [bldrB, bldrA, bldrC]"
  unfolding defaultSorter_def async_sort_def
proof (rule properties_for_sort_key)
  show "mset [bldrB, bldrA, bldrC] = mset builders"
    using assms by simp
  show "sorted (map key [bldrB, bldrA, bldrC])"
    by (simp add: key_def bldrA_def bldrB_def bldrC_def less_eq_prod_def less_ext_def)
  fix k assume k: "k \<in> set [bldrB, bldrA, bldrC]"
  have keys: "key bldrA \<noteq> key bldrB" "key bldrA \<noteq> key bldrC" "key bldrB \<noteq> key bldrC"
    by (simp_all add: key_def bldrA_def bldrB_def bldrC_def)
  have "mset (filter (\<lambda>x. key k = key x) builders)
      = mset (filter (\<lambda>x. key k = key x) [bldrB, bldrA, bldrC])"
    using assms by (simp only: mset_filter) simp
  moreover have "filter (\<lambda>x. key k = key x) [bldrB, bldrA, bldrC] = [k]"
    using k keys by auto
  ultimately have "mset (filter (\<lambda>x. key k = key x) builders) = {#k#}" by simp
  then have "filter (\<lambda>x. key k = key x) builders = [k]"
    by (metis mset_single_iff)
  with \<open>filter (\<lambda>x. key k = key x) [bldrB, bldrA, bldrC] = [k]\<close>
  show "filter (\<lambda>x. key k = key x) [bldrB, bldrA, bldrC]
      = filter (\<lambda>x. key k = key x) builders"
    by simp
qed

text \<open>
  C6. \<^verbatim>\<open>_defaultSorter\<close> returns the same builders in ascending order of \<open>key\<close>. Between
  two builders that have pending requests the key is smaller for the higher priority, then
  for the older oldest request, then for the smaller name. A builder with a pending request
  comes before every builder without one. For A (priority 10, oldest 5), B (priority 10,
  oldest 1) and C (nothing pending), given in any order, the result is B, A, C.
\<close>

theorem defaultSorter_order:
  "sorted (map key (defaultSorter builders))
   \<and> mset (defaultSorter builders) = mset builders
   \<and> (\<forall>a b pa ta pb tb.
        get_highest_priority a = Some pa \<and> getOldestRequestTime a = Some ta \<and>
        get_highest_priority b = Some pb \<and> getOldestRequestTime b = Some tb \<longrightarrow>
        (key a < key b)
          = (pb < pa \<or> (pa = pb \<and> (ta < tb \<or> (ta = tb \<and> name a < name b)))))
   \<and> (\<forall>a b pa. get_highest_priority a = Some pa \<and> get_highest_priority b = None
        \<longrightarrow> key a < key b)
   \<and> (mset builders = mset [bldrA, bldrB, bldrC]
        \<longrightarrow> defaultSorter builders = [bldrB, bldrA, bldrC])"
  using key_less_pending key_no_pending_last defaultSorter_ABC
  by (simp add: defaultSorter_def async_sort_def)

theorem defaultSorter_order_witness:
  "get_highest_priority bldrA = Some 10 \<and> get_highest_priority bldrC = None
   \<and> key bldrA < key bldrC
   \<and> mset [bldrC, bldrA, bldrB] = mset [bldrA, bldrB, bldrC]
   \<and> sorted (map key (defaultSorter [bldrC, bldrA, bldrB]))
   \<and> map name (defaultSorter [bldrC, bldrA, bldrB]) = [''B'', ''A'', ''C'']"
proof -
  note T = defaultSorter_order [of "[bldrC, bldrA, bldrB]"]
  have m: "mset [bldrC, bldrA, bldrB] = mset [bldrA, bldrB, bldrC]" by simp
  have p: "get_highest_priority bldrA = Some 10" "get_highest_priority bldrC = None"
    by (simp_all add: bldrA_def bldrC_def)
  from T m have r: "defaultSorter [bldrC, bldrA, bldrB] = [bldrB, bldrA, bldrC]" by blast
  from T have s: "sorted (map key (defaultSorter [bldrC, bldrA, bldrB]))" by blast
  from T p have k: "key bldrA < key bldrC" by blast
  have n: "map name [bldrB, bldrA, bldrC] = [''B'', ''A'', ''C'']"
    by (simp add: bldrA_def bldrB_def bldrC_def)
  from m p s k n show ?thesis unfolding r by blast
qed

section \<open>The Triggerable wait registry\<close>

lemma updateWaiters_keeps [simp]:
  "waiters (updateWaiters s) = waiters s" "fired (updateWaiters s) = fired s"
  by (simp_all add: updateWaiters_def)

text \<open>
  C9. \<^verbatim>\<open>setup_waiter\<close> registers the result Deferred \<open>d\<close> and the request ids of buildset
  \<open>b\<close>. A completion message for a registered buildset fires that Deferred once, with the
  message's results and the request ids registered with the waiter, removes this waiter and
  leaves the others; any further message for the same buildset changes nothing. A message
  for a buildset with no waiter changes nothing.
\<close>

theorem buildset_complete_cb_once:
  "(waiters s b = Some (d, brids) \<and> bsid m = b \<longrightarrow>
      fired (buildset_complete_cb m s) = fired s @ [(d, results m, brids)]
      \<and> waiters (buildset_complete_cb m s) b = None
      \<and> (\<forall>k. k \<noteq> b \<longrightarrow> waiters (buildset_complete_cb m s) k = waiters s k)
      \<and> (\<forall>m2. bsid m2 = b \<longrightarrow>
            buildset_complete_cb m2 (buildset_complete_cb m s) = buildset_complete_cb m s))
   \<and> (waiters s (bsid m) = None \<longrightarrow> buildset_complete_cb m s = s)
   \<and> waiters (setup_waiter d (b, brids) s) b = Some (d, brids)"
  by (auto simp: buildset_complete_cb_def setup_waiter_def Let_def)

theorem buildset_complete_cb_once_witness:
  "waiters (setup_waiter 1 (100, [7, 8]) no_waiters) 100 = Some (1, [7, 8])
   \<and> fired (buildset_complete_cb (msg100 0) (setup_waiter 1 (100, [7, 8]) no_waiters))
       = [(1, 0, [7, 8])]
   \<and> fired (buildset_complete_cb (msg100 2)
              (buildset_complete_cb (msg100 0) (setup_waiter 1 (100, [7, 8]) no_waiters)))
       = [(1, 0, [7, 8])]
   \<and> waiters no_waiters (bsid (msg100 0)) = None
   \<and> buildset_complete_cb (msg100 0) no_waiters = no_waiters"
  using buildset_complete_cb_once
      [of "setup_waiter 1 (100, [7, 8]) no_waiters" 100 1 "[7, 8]" "msg100 0"]
    buildset_complete_cb_once [of no_waiters 100 1 "[7, 8]" "msg100 0"]
  by (simp add: no_waiters_def msg100_def setup_waiter_def updateWaiters_def)

section \<open>Resolving the cached requests\<close>

lemma gatherResults_from_Inr:
  "gatherResults_from k rs = Inr xs \<Longrightarrow> map Inr xs = rs"
  by (induction k rs arbitrary: xs rule: gatherResults_from.induct)
     (auto split: sum.splits)

lemma gatherResults_from_Inl:
  "gatherResults_from k rs = Inl err \<Longrightarrow>
     \<exists>e i. err = FirstError e (k + i) \<and> i < length rs \<and> rs ! i = Inl e
        \<and> (\<forall>j<i. \<exists>b. rs ! j = Inr b)"
proof (induction k rs arbitrary: err rule: gatherResults_from.induct)
  case (1 i)
  then show ?case by simp
next
  case (2 i e rs)
  then show ?case by (intro exI[of _ e] exI[of _ 0]) simp
next
  case (3 i x rs)
  from "3.prems" have "gatherResults_from (Suc i) rs = Inl err"
    by (simp split: sum.splits)
  from "3.IH"[OF this] obtain e n where
    n: "err = FirstError e (Suc i + n)" "n < length rs" "rs ! n = Inl e"
       "\<forall>j<n. \<exists>b. rs ! j = Inr b"
    by blast
  show ?case
  proof (intro exI[of _ e] exI[of _ "Suc n"] conjI allI impI)
    fix j assume "j < Suc n"
    then show "\<exists>b. (Inr x # rs) ! j = Inr b"
      using n(4) by (cases j) auto
  qed (use n in simp_all)
qed

lemma resolve_each_Cons:
  "fst (resolve_each E (brd # brds) s)
     = fst (getBuildRequestForBrdict E brd s)
       # fst (resolve_each E brds (snd (getBuildRequestForBrdict E brd s)))"
  "snd (resolve_each E (brd # brds) s)
     = snd (resolve_each E brds (snd (getBuildRequestForBrdict E brd s)))"
  by (simp_all split: prod.splits)

lemma resolve_each_length: "length (fst (resolve_each E brds s)) = length brds"
  by (induction brds arbitrary: s) (simp_all add: resolve_each_Cons del: resolve_each.simps(2))

lemma resolve_each_nth:
  "i < length brds \<Longrightarrow>
     fst (resolve_each E brds s) ! i
       = fst (getBuildRequestForBrdict E (brds ! i) (snd (resolve_each E (take i brds) s)))"
proof (induction brds arbitrary: s i)
  case Nil
  then show ?case by simp
next
  case (Cons brd brds)
  show ?case
  proof (cases i)
    case 0
    then show ?thesis by (simp add: resolve_each_Cons del: resolve_each.simps(2))
  next
    case (Suc n)
    with Cons.prems have "n < length brds" by simp
    from Cons.IH[OF this] show ?thesis
      using Suc by (simp add: resolve_each_Cons del: resolve_each.simps(2))
  qed
qed

lemma getNext_propagates:
  assumes "unclaimedBrdicts s = Some brdicts" "brdicts \<noteq> []" "nextBuild E = Some policy"
    and "fst (getUnclaimedBuildRequests E s) = Inl err"
  shows "fst (getNextUnclaimedBuildRequest E s) = Inl err"
  using assms
  by (cases "getUnclaimedBuildRequests E s")
     (simp add: getNextUnclaimedBuildRequest_def fetchUnclaimedBrdicts_def)

lemma popNextBuild_propagates:
  assumes "fst (getNextUnclaimedBuildRequest E s) = Inl err"
  shows "\<exists>s'. popNextBuild E s = Some (Inl err, s')"
  using assms by (subst popNextBuild.simps) (auto split: prod.splits)

text \<open>
  C3, as the code has it. \<^verbatim>\<open>_getUnclaimedBuildRequests\<close> resolves every cached brdict,
  each by its own call of \<^verbatim>\<open>_getBuildRequestForBrdict\<close>. When no call raises, the result is
  the list of all their results, position by position: a call that returns \<^verbatim>\<open>None\<close>
  (unknown builder, or nothing from \<^verbatim>\<open>fromBrdict\<close>) leaves \<^verbatim>\<open>None\<close> at its place and the
  others their requests. When a call raises, the whole result is the failure
  \<^verbatim>\<open>FirstError\<close> of the first raising entry; with a \<^verbatim>\<open>nextBuild\<close> policy that failure
  leaves \<^verbatim>\<open>_getNextUnclaimedBuildRequest\<close> and \<^verbatim>\<open>popNextBuild\<close>.
\<close>

theorem getUnclaimedBuildRequests_all_or_first_error:
  assumes "unclaimedBrdicts s = Some brdicts"
  shows "length (fst (resolve_each E brdicts s)) = length brdicts
    \<and> (\<forall>i<length brdicts.
          fst (resolve_each E brdicts s) ! i
            = fst (getBuildRequestForBrdict E (brdicts ! i)
                     (snd (resolve_each E (take i brdicts) s))))
    \<and> (case fst (getUnclaimedBuildRequests E s) of
          Inr breqs \<Rightarrow> map Inr breqs = fst (resolve_each E brdicts s)
        | Inl err \<Rightarrow>
            (\<exists>e i. err = FirstError e i \<and> i < length brdicts
               \<and> fst (resolve_each E brdicts s) ! i = Inl e
               \<and> (\<forall>j<i. \<exists>b. fst (resolve_each E brdicts s) ! j = Inr b))
            \<and> (brdicts \<noteq> [] \<and> nextBuild E \<noteq> None \<longrightarrow>
                 fst (getNextUnclaimedBuildRequest E s) = Inl err
                 \<and> (\<exists>s'. popNextBuild E s = Some (Inl err, s'))))"
proof (intro conjI)
  show "length (fst (resolve_each E brdicts s)) = length brdicts"
    by (rule resolve_each_length)
  show "\<forall>i<length brdicts.
          fst (resolve_each E brdicts s) ! i
            = fst (getBuildRequestForBrdict E (brdicts ! i)
                     (snd (resolve_each E (take i brdicts) s)))"
    by (simp add: resolve_each_nth)
  have g: "fst (getUnclaimedBuildRequests E s) = gatherResults_from 0 (fst (resolve_each E brdicts s))"
    using assms by (simp add: getUnclaimedBuildRequests_def gatherResults_def split: prod.splits)
  show "case fst (getUnclaimedBuildRequests E s) of
          Inr breqs \<Rightarrow> map Inr breqs = fst (resolve_each E brdicts s)
        | Inl err \<Rightarrow>
            (\<exists>e i. err = FirstError e i \<and> i < length brdicts
               \<and> fst (resolve_each E brdicts s) ! i = Inl e
               \<and> (\<forall>j<i. \<exists>b. fst (resolve_each E brdicts s) ! j = Inr b))
            \<and> (brdicts \<noteq> [] \<and> nextBuild E \<noteq> None \<longrightarrow>
                 fst (getNextUnclaimedBuildRequest E s) = Inl err
                 \<and> (\<exists>s'. popNextBuild E s = Some (Inl err, s')))"
  proof (cases "fst (getUnclaimedBuildRequests E s)")
    case (Inr breqs)
    with g gatherResults_from_Inr[of 0 "fst (resolve_each E brdicts s)" breqs]
    have m: "map Inr breqs = fst (resolve_each E brdicts s)" by simp
    show ?thesis by (simp only: Inr sum.case m)
  next
    case (Inl err)
    with g gatherResults_from_Inl[of 0 "fst (resolve_each E brdicts s)" err]
    have 1: "\<exists>e i. err = FirstError e i \<and> i < length brdicts
               \<and> fst (resolve_each E brdicts s) ! i = Inl e
               \<and> (\<forall>j<i. \<exists>b. fst (resolve_each E brdicts s) ! j = Inr b)"
      by (simp add: resolve_each_length)
    have 2: "brdicts \<noteq> [] \<and> nextBuild E \<noteq> None \<longrightarrow>
                 fst (getNextUnclaimedBuildRequest E s) = Inl err
                 \<and> (\<exists>s'. popNextBuild E s = Some (Inl err, s'))"
      using getNext_propagates[OF assms _ _ Inl] popNextBuild_propagates by blast
    from 1 2 show ?thesis by (simp only: Inl sum.case simp_thms)
  qed
qed

theorem getUnclaimedBuildRequests_all_or_first_error_witness:
  "unclaimedBrdicts (fetched env_unknown_builder)
     = Some [(brdict_of 1 0 0)\<lparr>builderid := 8\<rparr>, brdict_of 2 0 0]
   \<and> fst (getUnclaimedBuildRequests env_unknown_builder (fetched env_unknown_builder))
       = Inr [None, Some (breq_of 2 0)]
   \<and> unclaimedBrdicts (fetched env_resolution_fault) = Some [brdict_of 1 0 0, brdict_of 2 0 0]
   \<and> nextBuild env_resolution_fault \<noteq> None
   \<and> fst (getNextUnclaimedBuildRequest env_resolution_fault (fetched env_resolution_fault))
       = Inl (FirstError (Exception ''resolution failed'') 0)
   \<and> length (fst (resolve_each env_resolution_fault [brdict_of 1 0 0, brdict_of 2 0 0]
                 (fetched env_resolution_fault))) = 2"
proof -
  have h1: "unclaimedBrdicts (fetched env_unknown_builder)
     = Some [(brdict_of 1 0 0)\<lparr>builderid := 8\<rparr>, brdict_of 2 0 0]"
    by code_simp
  have h2: "unclaimedBrdicts (fetched env_resolution_fault)
     = Some [brdict_of 1 0 0, brdict_of 2 0 0]"
    by code_simp
  have r1: "fst (getUnclaimedBuildRequests env_unknown_builder (fetched env_unknown_builder))
       = Inr [None, Some (breq_of 2 0)]"
    by code_simp
  have r2: "fst (getUnclaimedBuildRequests env_resolution_fault (fetched env_resolution_fault))
       = Inl (FirstError (Exception ''resolution failed'') 0)"
    by code_simp
  have n: "nextBuild env_resolution_fault \<noteq> None"
    by (simp add: env_resolution_fault_def)
  from getUnclaimedBuildRequests_all_or_first_error [OF h2, of env_resolution_fault] r2 n
  have "fst (getNextUnclaimedBuildRequest env_resolution_fault (fetched env_resolution_fault))
       = Inl (FirstError (Exception ''resolution failed'') 0)
     \<and> length (fst (resolve_each env_resolution_fault [brdict_of 1 0 0, brdict_of 2 0 0]
                 (fetched env_resolution_fault))) = 2"
    by simp
  with h1 h2 r1 n show ?thesis by simp
qed

text \<open>
  C3 as stated fails: the resolver raises for request 1 and would resolve request 2; the
  fan-out yields no request at all but the failure, and \<^verbatim>\<open>chooseNextBuild\<close> raises it.
\<close>

theorem resolution_fault_aborts_fan_out:
  "fst (getUnclaimedBuildRequests env_resolution_fault (fetched env_resolution_fault))
     = Inl (FirstError (Exception ''resolution failed'') 0)
   \<and> map_option fst (chooseNextBuild env_resolution_fault (BasicBuildChooser env_resolution_fault))
     = Some (Inl (FirstError (Exception ''resolution failed'') 0))"
  by code_simp


section \<open>Defects of the dispatch\<close>

text \<open>
  C2. The store shows request 1 unclaimed and another master claims it before this one
  does. The claim fails, a fresh chooser finds nothing, and the dispatch ends with no error:
  id 1 was marked in progress before the claim and is still marked.
\<close>

theorem claim_failure_leaves_ids_in_progress:
  "map_option (\<lambda>(e, w, st). (e, claimed w, in_progress st = {1}, signalled st))
     (maybeStartBuildsOnBuilder (dispatch_env_of store_claim_after_other_master True)
        one_request (idle []))
   = Some (None, [1], True, [])"
  by code_simp

text \<open>
  C5. The claim of request 1 succeeds and the builder declines to start. The claim is
  reversed and the mark cleared; the name signalled to the botmaster is the distributor's
  own \<^verbatim>\<open>self.name\<close>, not the name of the builder (\<open>''bldr''\<close>).
\<close>

theorem start_failure_signals_distributor_name:
  "map_option (\<lambda>(e, w, st). (e, claimed w, in_progress st = {}, signalled st))
     (maybeStartBuildsOnBuilder (dispatch_env_of store_claim False) one_request (idle []))
   = Some (None, [], True, [''BuildRequestDistributor''])"
  by code_simp

text \<open>
  C4. The pending builders are A, B and the signal names A, B again: a subset, but not a
  proper one. The call does not return early. While the activity loop is running it sorts
  the pending list anew (B now before A); with no loop running it also starts one. A signal
  with no name at all on an empty pending list starts a loop as well.
\<close>

theorem equal_set_is_not_short_circuited:
  "set [''A'', ''B''] \<subseteq> set (pending_builders (idle [''A'', ''B'']))
   \<and> pending_builders
        (maybeStartBuildsOn three_builders [''A'', ''B''] ((idle [''A'', ''B''])\<lparr>active := True\<rparr>))
       = [''B'', ''A'']
   \<and> pending_builders (maybeStartBuildsOn three_builders [''A'', ''B''] (idle [''A'', ''B'']))
       = [''B'', ''A'']
   \<and> loops_started (maybeStartBuildsOn three_builders [''A'', ''B''] (idle [''A'', ''B''])) = 1
   \<and> loops_started (maybeStartBuildsOn three_builders [] (idle [])) = 1"
  by (simp add: maybeStartBuildsOn_def idle_def three_builders_def sortBuilders_def
      List.map_filter_simps defaultSorter_def async_sort_def key_def bldrA_def bldrB_def bldrC_def
      less_eq_prod_def less_ext_def Let_def)

section \<open>Drawing workers\<close>

lemma invocations_simps [simp]:
  "invocations [] = 0" "invocations (cs @ ds) = invocations cs + invocations ds"
  "invocations [Call_nextWorker pool b] = 1" "invocations [Call_canStartBuild w b] = 0"
  "invocations [Call_data_get_buildrequests] = 0" "invocations [Call_nextBuild bs] = 0"
  by (simp_all add: invocations_def)

lemma draws_simps [simp]:
  "draws E [] = 0" "draws E (cs @ ds) = draws E cs + draws E ds"
  "draws E [Call_canStartBuild w b] = 0"
  "draws E [Call_data_get_buildrequests] = 0" "draws E [Call_nextBuild bs] = 0"
  by (simp_all add: draws_def)

lemma tried_ids_simps [simp]:
  "tried_ids [] = []" "tried_ids (cs @ ds) = tried_ids cs @ tried_ids ds"
  "tried_ids [Call_canStartBuild w b] = [br_id b]" "tried_ids [Call_nextWorker pool b] = []"
  "tried_ids [Call_data_get_buildrequests] = []" "tried_ids [Call_nextBuild bs] = []"
  by (simp_all add: tried_ids_def)

text \<open>What one call of popNextWorker does.\<close>

lemma popNextWorker_cases:
  assumes "popNextWorker E b s = (r, s')"
  obtains
    (preferred) w ws where "preferredWorkers s = w # ws" "r = Some w"
      "s' = s\<lparr>preferredWorkers := ws\<rparr>"
  | (empty) "preferredWorkers s = []" "workerpool s = []" "r = None" "s' = s"
  | (refused) "preferredWorkers s = []" "workerpool s \<noteq> []"
      "\<not> drawn E (Call_nextWorker (workerpool s) b)" "r = None"
      "s' = log_call (Call_nextWorker (workerpool s) b) s"
  | (draw) w where "preferredWorkers s = []" "workerpool s \<noteq> []"
      "nextWorker E (workerpool s) b = Inr (Some w)" "w \<in> set (workerpool s)" "r = Some w"
      "s' = (log_call (Call_nextWorker (workerpool s) b) s)\<lparr>workerpool := remove1 w (workerpool s)\<rparr>"
  using assms
  by (auto simp: popNextWorker_def Let_def split: list.splits if_splits sum.splits option.splits)

lemma tryWorkers_unfold:
  "tryWorkers E b w rec s =
     (let s1 = log_call (Call_canStartBuild w b) s in
      case canStartBuild E w b of
        Inl e \<Rightarrow> (Inl e, rec, s1)
      | Inr canStart \<Rightarrow>
          if canStart then (Inr (Some w), rec, s1)
          else (case popNextWorker E b s1 of
                  (None, s2) \<Rightarrow> (Inr None, rec @ [w], s2)
                | (Some w2, s2) \<Rightarrow> tryWorkers E b w2 (rec @ [w]) s2))"
  by (subst tryWorkers.simps) (simp add: chooser_canStartBuild_def Let_def)


lemma tryWorkers_induct [consumes 1, case_names raise accept exhausted again]:
  assumes run: "tryWorkers E b w rec s = (x, rec', s')"
    and raise: "\<And>w rec s e. canStartBuild E w b = Inl e \<Longrightarrow>
        P w rec s (Inl e) rec (log_call (Call_canStartBuild w b) s)"
    and accept: "\<And>w rec s. canStartBuild E w b = Inr True \<Longrightarrow>
        P w rec s (Inr (Some w)) rec (log_call (Call_canStartBuild w b) s)"
    and exhausted: "\<And>w rec s s2. canStartBuild E w b = Inr False \<Longrightarrow>
        popNextWorker E b (log_call (Call_canStartBuild w b) s) = (None, s2) \<Longrightarrow>
        P w rec s (Inr None) (rec @ [w]) s2"
    and again: "\<And>w rec s w2 s2 x rec' s'. canStartBuild E w b = Inr False \<Longrightarrow>
        popNextWorker E b (log_call (Call_canStartBuild w b) s) = (Some w2, s2) \<Longrightarrow>
        tryWorkers E b w2 (rec @ [w]) s2 = (x, rec', s') \<Longrightarrow>
        P w2 (rec @ [w]) s2 x rec' s' \<Longrightarrow> P w rec s x rec' s'"
  shows "P w rec s x rec' s'"
  using run raise accept exhausted again
proof (induction E b w rec s arbitrary: x rec' s' rule: tryWorkers.induct)
  case (1 E b w rec s)
  let ?s1 = "log_call (Call_canStartBuild w b) s"
  have c: "chooser_canStartBuild E w b s = (canStartBuild E w b, ?s1)"
    by (simp add: chooser_canStartBuild_def)
  show ?case
  proof (cases "canStartBuild E w b")
    case (Inl e)
    with "1.prems"(1) have "x = Inl e" "rec' = rec" "s' = ?s1"
      by (simp_all add: tryWorkers_unfold[of E b w rec s] Let_def)
    with "1.prems"(2)[OF Inl] show ?thesis by simp
  next
    case (Inr canStart)
    show ?thesis
    proof (cases canStart)
      case True
      with Inr "1.prems"(1) have "x = Inr (Some w)" "rec' = rec" "s' = ?s1"
        by (simp_all add: tryWorkers_unfold[of E b w rec s] Let_def)
      with "1.prems"(3) Inr True show ?thesis by simp
    next
      case False
      obtain r s2 where p: "popNextWorker E b ?s1 = (r, s2)"
        by (cases "popNextWorker E b ?s1")
      show ?thesis
      proof (cases r)
        case None
        with Inr False p "1.prems"(1) have "x = Inr None" "rec' = rec @ [w]" "s' = s2"
          by (simp_all add: tryWorkers_unfold[of E b w rec s] Let_def)
        with "1.prems"(4) Inr False p None show ?thesis by simp
      next
        case (Some w2)
        with Inr False p "1.prems"(1)
        have t: "tryWorkers E b w2 (rec @ [w]) s2 = (x, rec', s')"
          by (simp add: tryWorkers_unfold[of E b w rec s] Let_def)
        have "P w2 (rec @ [w]) s2 x rec' s'"
          by (rule "1.IH"[OF c[symmetric] Inr _ p[symmetric] Some t "1.prems"(2-5)])
             (simp add: False)
        with "1.prems"(5) Inr False p Some t show ?thesis by simp
      qed
    qed
  qed
qed


lemma log_call_simps [simp]:
  "unclaimedBrdicts (log_call c s) = unclaimedBrdicts s"
  "breqCache (log_call c s) = breqCache s"
  "workerpool (log_call c s) = workerpool s"
  "preferredWorkers (log_call c s) = preferredWorkers s"
  "calls (log_call c s) = calls s @ [c]"
  by (simp_all add: log_call_def)

lemma draws_single: "draws E [c] = (if drawn E c then 1 else 0)"
  by (simp add: draws_def)

lemma popNextWorker_frame:
  assumes "popNextWorker E b s = (r, s')"
  shows "unclaimedBrdicts s' = unclaimedBrdicts s \<and> breqCache s' = breqCache s"
  using assms by (cases rule: popNextWorker_cases) simp_all

lemma popNextWorker_count:
  assumes "popNextWorker E b s = (r, s')"
  shows "\<exists>cs. calls s' = calls s @ cs \<and> tried_ids cs = []
           \<and> draws E cs + length (workerpool s') = length (workerpool s)
           \<and> invocations cs \<le> draws E cs + (if r = None then 1 else 0)"
  using assms
proof (cases rule: popNextWorker_cases)
  case (preferred w ws)
  then show ?thesis by (intro exI[of _ "[]"]) simp
next
  case empty
  then show ?thesis by (intro exI[of _ "[]"]) simp
next
  case refused
  then show ?thesis
    by (intro exI[of _ "[Call_nextWorker (workerpool s) b]"]) (simp add: draws_single)
next
  case (draw w)
  then have "length (workerpool s) = Suc (length (remove1 w (workerpool s)))"
    by (simp add: length_remove1)
  with draw show ?thesis
    by (intro exI[of _ "[Call_nextWorker (workerpool s) b]"]) (simp add: draws_single)
qed

lemma tryWorkers_frame:
  assumes "tryWorkers E b w rec s = (x, rec', s')"
  shows "unclaimedBrdicts s' = unclaimedBrdicts s \<and> breqCache s' = breqCache s"
  using assms
proof (induction rule: tryWorkers_induct)
  case (exhausted w rec s s2)
  then show ?case using popNextWorker_frame by fastforce
next
  case (again w rec s w2 s2 x rec' s')
  then show ?case using popNextWorker_frame by fastforce
qed simp_all

lemma tryWorkers_count:
  assumes "tryWorkers E b w rec s = (x, rec', s')"
  shows "\<exists>cs n. calls s' = calls s @ cs \<and> tried_ids cs = replicate (Suc n) (br_id b)
           \<and> draws E cs + length (workerpool s') = length (workerpool s)
           \<and> invocations cs \<le> draws E cs + (if x = Inr None then 1 else 0)"
  using assms
proof (induction rule: tryWorkers_induct)
  case (raise w rec s e)
  then show ?case
    by (intro exI[of _ "[Call_canStartBuild w b]"] exI[of _ 0]) simp
next
  case (accept w rec s)
  then show ?case
    by (intro exI[of _ "[Call_canStartBuild w b]"] exI[of _ 0]) simp
next
  case (exhausted w rec s s2)
  from popNextWorker_count[OF exhausted(2)] obtain cs where
    "calls s2 = calls s @ Call_canStartBuild w b # cs" "tried_ids cs = []"
    "draws E cs + length (workerpool s2) = length (workerpool s)"
    "invocations cs \<le> draws E cs + 1"
    by auto
  then show ?case
    by (intro exI[of _ "Call_canStartBuild w b # cs"] exI[of _ 0])
       (simp add: tried_ids_def invocations_def draws_def)
next
  case (again w rec s w2 s2 x rec' s')
  from popNextWorker_count[OF again(2)] obtain cs where
    cs: "calls s2 = calls s @ Call_canStartBuild w b # cs" "tried_ids cs = []"
    "draws E cs + length (workerpool s2) = length (workerpool s)"
    "invocations cs \<le> draws E cs"
    by auto
  from again(4) obtain ds n where
    ds: "calls s' = calls s2 @ ds" "tried_ids ds = replicate (Suc n) (br_id b)"
    "draws E ds + length (workerpool s') = length (workerpool s2)"
    "invocations ds \<le> draws E ds + (if x = Inr None then 1 else 0)"
    by blast
  have "tried_ids (Call_canStartBuild w b # cs @ ds) = replicate (Suc (Suc n)) (br_id b)"
    using cs(2) ds(2) tried_ids_simps(2)[of "[Call_canStartBuild w b]" "cs @ ds"] by simp
  moreover have "draws E (Call_canStartBuild w b # cs @ ds) = draws E cs + draws E ds"
    using draws_simps(2)[of E "[Call_canStartBuild w b]" "cs @ ds"] by simp
  moreover have "invocations (Call_canStartBuild w b # cs @ ds) = invocations cs + invocations ds"
    using invocations_simps(2)[of "[Call_canStartBuild w b]" "cs @ ds"] by simp
  ultimately show ?case
    using cs ds
    by (intro exI[of _ "Call_canStartBuild w b # cs @ ds"] exI[of _ "Suc n"]) auto
qed









section \<open>Resolving and selecting requests\<close>

lemma BuildRequestModel_of_id [simp]:
  "buildrequestid (BuildRequestModel_of brd n) = buildrequestid brd"
  by (simp add: BuildRequestModel_of_def brdict.defs)

lemma getBuildRequestForBrdict_cases:
  assumes run: "getBuildRequestForBrdict E brd s = (r, s1)"
  obtains (memo) b where "breqCache s (buildrequestid brd) = Some b" "r = Inr (Some b)" "s1 = s"
  | (nothing) "breqCache s (buildrequestid brd) = None" "\<forall>b. r \<noteq> Inr (Some b)" "s1 = s"
  | (resolved) b n where "breqCache s (buildrequestid brd) = None"
      "fromBrdict E (BuildRequestModel_of brd n) = Inr (Some b)" "r = Inr (Some b)"
      "s1 = s\<lparr>breqCache := (breqCache s)(buildrequestid brd \<mapsto> b)\<rparr>"
proof (cases "breqCache s (buildrequestid brd)")
  case (Some b)
  with run have "r = Inr (Some b)" "s1 = s"
    by (simp_all add: getBuildRequestForBrdict_def)
  with Some show ?thesis by - (rule memo, simp_all)
next
  case None
  show ?thesis
  proof (cases "data_get_builder E (builderid brd)")
    case (Inl e)
    with None run have "r = Inl e" "s1 = s"
      by (simp_all add: getBuildRequestForBrdict_def)
    with None show ?thesis by - (rule nothing, simp_all)
  next
    case (Inr nm)
    show ?thesis
    proof (cases nm)
      case N: None
      with None Inr run have "r = Inr None" "s1 = s"
        by (simp_all add: getBuildRequestForBrdict_def)
      with None show ?thesis by - (rule nothing, simp_all)
    next
      case (Some n)
      show ?thesis
      proof (cases "fromBrdict E (BuildRequestModel_of brd n)")
        case (Inl e)
        with None Inr Some run have "r = Inl e" "s1 = s"
          by (simp_all add: getBuildRequestForBrdict_def Let_def)
        with None show ?thesis by - (rule nothing, simp_all)
      next
        case R: (Inr ob)
        show ?thesis
        proof (cases ob)
          case N: None
          with None Inr Some R run have "r = Inr None" "s1 = s"
            by (simp_all add: getBuildRequestForBrdict_def Let_def)
          with None show ?thesis by - (rule nothing, simp_all)
        next
          case S: (Some b)
          with None Inr Some R run have "r = Inr (Some b)"
            "s1 = s\<lparr>breqCache := (breqCache s)(buildrequestid brd \<mapsto> b)\<rparr>"
            by (simp_all add: getBuildRequestForBrdict_def Let_def)
          with None R S show ?thesis by - (rule resolved[where b=b and n=n], simp_all)
        qed
      qed
    qed
  qed
qed

lemma getBuildRequestForBrdict_frame:
  assumes "getBuildRequestForBrdict E brd s = (r, s1)"
  shows "unclaimedBrdicts s1 = unclaimedBrdicts s \<and> workerpool s1 = workerpool s
    \<and> preferredWorkers s1 = preferredWorkers s \<and> calls s1 = calls s
    \<and> (\<forall>k. k \<noteq> buildrequestid brd \<longrightarrow> breqCache s1 k = breqCache s k)"
  using assms by (cases rule: getBuildRequestForBrdict_cases) simp_all

lemma getBuildRequestForBrdict_ids:
  assumes "getBuildRequestForBrdict E brd s = (r, s1)" "ids_kept E" "memo_ok s"
  shows "memo_ok s1 \<and> (\<forall>b. r = Inr (Some b) \<longrightarrow> br_id b = buildrequestid brd)"
  using assms(1)
proof (cases rule: getBuildRequestForBrdict_cases)
  case (memo b)
  with assms(3) show ?thesis by (auto simp: memo_ok_def)
next
  case nothing
  with assms(3) show ?thesis by simp
next
  case (resolved b n)
  with assms(2) have "br_id b = buildrequestid brd"
    by (auto simp: ids_kept_def)
  with resolved assms(3) show ?thesis by (auto simp: memo_ok_def)
qed

lemma resolve_each_frame:
  "resolve_each E brds s = (rs, s1) \<Longrightarrow>
     unclaimedBrdicts s1 = unclaimedBrdicts s \<and> workerpool s1 = workerpool s
     \<and> preferredWorkers s1 = preferredWorkers s \<and> calls s1 = calls s
     \<and> (\<forall>k. k \<notin> buildrequestid ` set brds \<longrightarrow> breqCache s1 k = breqCache s k)"
proof (induction brds arbitrary: s rs s1)
  case Nil
  then show ?case by simp
next
  case (Cons brd brds)
  obtain r s2 where g: "getBuildRequestForBrdict E brd s = (r, s2)"
    by (cases "getBuildRequestForBrdict E brd s")
  obtain rs' s3 where e: "resolve_each E brds s2 = (rs', s3)"
    by (cases "resolve_each E brds s2")
  from Cons.prems g e have "s1 = s3" by simp
  with getBuildRequestForBrdict_frame[OF g] Cons.IH[OF e] show ?case by auto
qed

lemma resolve_each_ids:
  "resolve_each E brds s = (rs, s1) \<Longrightarrow> ids_kept E \<Longrightarrow> memo_ok s \<Longrightarrow>
     memo_ok s1 \<and> (\<forall>b. Inr (Some b) \<in> set rs \<longrightarrow> br_id b \<in> buildrequestid ` set brds)"
proof (induction brds arbitrary: s rs s1)
  case Nil
  then show ?case by simp
next
  case (Cons brd brds)
  obtain r s2 where g: "getBuildRequestForBrdict E brd s = (r, s2)"
    by (cases "getBuildRequestForBrdict E brd s")
  obtain rs' s3 where e: "resolve_each E brds s2 = (rs', s3)"
    by (cases "resolve_each E brds s2")
  from Cons.prems(1) g e have eq: "s1 = s3" "rs = r # rs'" by simp_all
  from getBuildRequestForBrdict_ids[OF g Cons.prems(2,3)] have
    m: "memo_ok s2" and i: "\<forall>b. r = Inr (Some b) \<longrightarrow> br_id b = buildrequestid brd"
    by simp_all
  from Cons.IH[OF e Cons.prems(2) m] eq i show ?case by auto
qed


lemma fetchUnclaimedBrdicts_cases:
  assumes "fetchUnclaimedBrdicts E s = (r, s1)"
  obtains (cached) xs where "unclaimedBrdicts s = Some xs" "r = Inr xs" "s1 = s"
  | (failed) e where "unclaimedBrdicts s = None" "data_get_buildrequests E = Inl e" "r = Inl e"
      "s1 = log_call Call_data_get_buildrequests s"
  | (loaded) brds where "unclaimedBrdicts s = None" "data_get_buildrequests E = Inr brds"
      "r = Inr (sort_key buildrequestid brds)"
      "s1 = (log_call Call_data_get_buildrequests s)
              \<lparr>unclaimedBrdicts := Some (sort_key buildrequestid brds)\<rparr>"
proof (cases "unclaimedBrdicts s")
  case (Some xs)
  with assms show ?thesis by - (rule cached[of xs], simp_all add: fetchUnclaimedBrdicts_def)
next
  case None
  show ?thesis
  proof (cases "data_get_buildrequests E")
    case (Inl e)
    with None assms show ?thesis
      by - (rule failed[of e], simp_all add: fetchUnclaimedBrdicts_def Let_def)
  next
    case (Inr brds)
    with None assms show ?thesis
      by - (rule loaded[of brds], simp_all add: fetchUnclaimedBrdicts_def Let_def)
  qed
qed

text \<open>What the fetch leaves: workers untouched, no policy call, the cache as long as announced.\<close>

lemma fetchUnclaimedBrdicts_frame:
  assumes "fetchUnclaimedBrdicts E s = (r, s1)"
  shows "workerpool s1 = workerpool s \<and> preferredWorkers s1 = preferredWorkers s
    \<and> breqCache s1 = breqCache s
    \<and> (\<exists>cs. calls s1 = calls s @ cs \<and> invocations cs = 0 \<and> draws E cs = 0 \<and> tried_ids cs = [])
    \<and> (\<forall>xs. unclaimedBrdicts s = Some xs \<longrightarrow> unclaimedBrdicts s1 = Some xs)
    \<and> (\<forall>xs. r = Inr xs \<longrightarrow> unclaimedBrdicts s1 = Some xs \<and> length xs = pending_len E s)
    \<and> (\<forall>e. r = Inl e \<longrightarrow> data_get_buildrequests E = Inl e)"
  using assms
proof (cases rule: fetchUnclaimedBrdicts_cases)
  case (cached xs)
  have "\<exists>cs. calls s1 = calls s @ cs \<and> invocations cs = 0 \<and> draws E cs = 0 \<and> tried_ids cs = []"
    using cached by (intro exI[of _ "[]"]) simp
  with cached show ?thesis by (simp add: pending_len_def)
next
  case (failed e)
  have "\<exists>cs. calls s1 = calls s @ cs \<and> invocations cs = 0 \<and> draws E cs = 0 \<and> tried_ids cs = []"
    using failed by (intro exI[of _ "[Call_data_get_buildrequests]"]) simp
  with failed show ?thesis by (simp add: pending_len_def)
next
  case (loaded brds)
  have "\<exists>cs. calls s1 = calls s @ cs \<and> invocations cs = 0 \<and> draws E cs = 0 \<and> tried_ids cs = []"
    using loaded by (intro exI[of _ "[Call_data_get_buildrequests]"]) simp
  with loaded show ?thesis by (simp add: pending_len_def)
qed

lemma getUnclaimedBuildRequests_frame:
  assumes "getUnclaimedBuildRequests E s = (r, s1)"
  shows "unclaimedBrdicts s1 = unclaimedBrdicts s \<and> workerpool s1 = workerpool s
     \<and> preferredWorkers s1 = preferredWorkers s \<and> calls s1 = calls s
     \<and> (\<forall>k. k \<notin> set (cached_ids s) \<longrightarrow> breqCache s1 k = breqCache s k)"
proof -
  let ?xs = "case unclaimedBrdicts s of None \<Rightarrow> [] | Some brdicts \<Rightarrow> brdicts"
  obtain rs s2 where e: "resolve_each E ?xs s = (rs, s2)"
    by (cases "resolve_each E ?xs s")
  with assms have "s1 = s2" by (simp add: getUnclaimedBuildRequests_def)
  moreover have "buildrequestid ` set ?xs = set (cached_ids s)"
    by (cases "unclaimedBrdicts s") (simp_all add: cached_ids_def)
  ultimately show ?thesis using resolve_each_frame[OF e] by simp
qed

lemma getUnclaimedBuildRequests_ids:
  assumes "getUnclaimedBuildRequests E s = (r, s1)" "ids_kept E" "memo_ok s"
  shows "memo_ok s1
     \<and> (\<forall>breqs b. r = Inr breqs \<longrightarrow> Some b \<in> set breqs \<longrightarrow> br_id b \<in> set (cached_ids s))"
proof -
  let ?xs = "case unclaimedBrdicts s of None \<Rightarrow> [] | Some brdicts \<Rightarrow> brdicts"
  obtain rs s2 where e: "resolve_each E ?xs s = (rs, s2)"
    by (cases "resolve_each E ?xs s")
  with assms(1) have eq: "s1 = s2" "r = gatherResults_from 0 rs"
    by (simp_all add: getUnclaimedBuildRequests_def gatherResults_def)
  have ids: "buildrequestid ` set ?xs = set (cached_ids s)"
    by (cases "unclaimedBrdicts s") (simp_all add: cached_ids_def)
  from resolve_each_ids[OF e assms(2,3)] have
    m: "memo_ok s2" and i: "\<forall>b. Inr (Some b) \<in> set rs \<longrightarrow> br_id b \<in> buildrequestid ` set ?xs"
    by simp_all
  have "br_id b \<in> set (cached_ids s)" if "r = Inr breqs" "Some b \<in> set breqs" for breqs b
  proof -
    from that(1) eq(2) gatherResults_from_Inr[of 0 rs breqs] have "map Inr breqs = rs" by simp
    with that(2) have "Inr (Some b) \<in> set rs" by auto
    with i ids show ?thesis by simp
  qed
  with m eq(1) show ?thesis by blast
qed


lemma getNextUnclaimedBuildRequest_cases:
  assumes run: "getNextUnclaimedBuildRequest E s = (r, s1)"
  obtains (fetch_failed) e where "fetchUnclaimedBrdicts E s = (Inl e, s1)" "r = Inl e"
  | (nothing_cached) "fetchUnclaimedBrdicts E s = (Inr [], s1)" "r = Inr None"
  | (default) brdicts sf brd where "fetchUnclaimedBrdicts E s = (Inr brdicts, sf)"
      "brd \<in> set brdicts" "getBuildRequestForBrdict E brd sf = (r, s1)"
  | (gather_failed) brdicts sf e where "fetchUnclaimedBrdicts E s = (Inr brdicts, sf)"
      "getUnclaimedBuildRequests E sf = (Inl e, s1)" "r = Inl e"
  | (policy) brdicts sf breqs sg where "fetchUnclaimedBrdicts E s = (Inr brdicts, sf)"
      "brdicts \<noteq> []"
      "getUnclaimedBuildRequests E sf = (Inr breqs, sg)" "s1 = log_call (Call_nextBuild breqs) sg"
      "r = Inr None \<or> (\<exists>b. r = Inr (Some b) \<and> Some b \<in> set breqs)"
proof -
  obtain rf sf where f: "fetchUnclaimedBrdicts E s = (rf, sf)"
    by (cases "fetchUnclaimedBrdicts E s")
  show ?thesis
  proof (cases rf)
    case (Inl e)
    with f run show ?thesis
      by - (rule fetch_failed[of e], simp_all add: getNextUnclaimedBuildRequest_def)
  next
    case (Inr brdicts)
    show ?thesis
    proof (cases "brdicts = []")
      case True
      with f Inr run show ?thesis
        by - (rule nothing_cached, simp_all add: getNextUnclaimedBuildRequest_def)
    next
      case False
      show ?thesis
      proof (cases "nextBuild E")
        case None
        from False have "sort_key (\<lambda>b. - priority b) brdicts \<noteq> []"
          by (metis length_sort length_0_conv)
        then obtain brd rest where sk: "sort_key (\<lambda>b. - priority b) brdicts = brd # rest"
          by (cases "sort_key (\<lambda>b. - priority b) brdicts") auto
        then have "brd \<in> set (sort_key (\<lambda>b. - priority b) brdicts)" by simp
        then have m: "brd \<in> set brdicts" by simp
        from f Inr False None sk run have "getBuildRequestForBrdict E brd sf = (r, s1)"
          by (simp add: getNextUnclaimedBuildRequest_def)
        with f Inr m show ?thesis by - (rule default[of brdicts sf brd], simp_all)
      next
        case (Some pol)
        obtain rg sg where g: "getUnclaimedBuildRequests E sf = (rg, sg)"
          by (cases "getUnclaimedBuildRequests E sf")
        show ?thesis
        proof (cases rg)
          case (Inl e)
          with f Inr False Some g run show ?thesis
            by - (rule gather_failed[of brdicts sf e],
                  simp_all add: getNextUnclaimedBuildRequest_def)
        next
          case R: (Inr breqs)
          from f Inr False Some g R run have
            s1: "s1 = log_call (Call_nextBuild breqs) sg"
            by (simp add: getNextUnclaimedBuildRequest_def Let_def split: sum.splits)
          have r: "r = Inr None \<or> (\<exists>b. r = Inr (Some b) \<and> Some b \<in> set breqs)"
          proof (cases "pol breqs")
            case (Inl e)
            with f Inr False Some g R run show ?thesis
              by (simp add: getNextUnclaimedBuildRequest_def Let_def)
          next
            case P: (Inr nb)
            with f Inr False Some g R run have
              "r = Inr (if nb \<in> set breqs then nb else None)"
              by (simp add: getNextUnclaimedBuildRequest_def Let_def)
            then show ?thesis by (cases nb) (auto split: if_splits)
          qed
          from f Inr False g R s1 r show ?thesis
            by - (rule policy[of brdicts sf breqs sg], simp_all)
        qed
      qed
    qed
  qed
qed


lemma getNextUnclaimedBuildRequest_frame:
  assumes "getNextUnclaimedBuildRequest E s = (r, s1)"
  shows "workerpool s1 = workerpool s \<and> preferredWorkers s1 = preferredWorkers s
    \<and> (\<exists>cs. calls s1 = calls s @ cs \<and> invocations cs = 0 \<and> draws E cs = 0 \<and> tried_ids cs = [])
    \<and> (\<forall>xs. unclaimedBrdicts s = Some xs \<longrightarrow> unclaimedBrdicts s1 = Some xs)
    \<and> (\<forall>k. k \<notin> set (cached_ids s1) \<longrightarrow> breqCache s1 k = breqCache s k)
    \<and> (\<forall>b. r = Inr (Some b) \<longrightarrow>
          (\<exists>xs. unclaimedBrdicts s1 = Some xs \<and> length xs = pending_len E s \<and> xs \<noteq> []))"
  using assms
proof (cases rule: getNextUnclaimedBuildRequest_cases)
  case (fetch_failed e)
  with fetchUnclaimedBrdicts_frame[OF fetch_failed(1)] show ?thesis by auto
next
  case nothing_cached
  with fetchUnclaimedBrdicts_frame[OF nothing_cached(1)] show ?thesis by auto
next
  case (default brdicts sf brd)
  note F = fetchUnclaimedBrdicts_frame[OF default(1)]
  note G = getBuildRequestForBrdict_frame[OF default(3)]
  from F have c: "unclaimedBrdicts sf = Some brdicts" by simp
  with G default(2) have i: "buildrequestid brd \<in> set (cached_ids s1)"
    by (simp add: cached_ids_def)
  have k: "\<forall>k. k \<notin> set (cached_ids s1) \<longrightarrow> breqCache s1 k = breqCache s k"
  proof (intro allI impI)
    fix k assume "k \<notin> set (cached_ids s1)"
    with i have "k \<noteq> buildrequestid brd" by auto
    with G F show "breqCache s1 k = breqCache s k" by simp
  qed
  from F G c have "workerpool s1 = workerpool s" "preferredWorkers s1 = preferredWorkers s"
    "\<exists>cs. calls s1 = calls s @ cs \<and> invocations cs = 0 \<and> draws E cs = 0 \<and> tried_ids cs = []"
    "\<forall>xs. unclaimedBrdicts s = Some xs \<longrightarrow> unclaimedBrdicts s1 = Some xs"
    "\<exists>xs. unclaimedBrdicts s1 = Some xs \<and> length xs = pending_len E s \<and> xs \<noteq> []"
    using default(2) by auto
  with k show ?thesis by simp
next
  case (gather_failed brdicts sf e)
  note F = fetchUnclaimedBrdicts_frame[OF gather_failed(1)]
  note G = getUnclaimedBuildRequests_frame[OF gather_failed(2)]
  from G have "cached_ids s1 = cached_ids sf" by (simp add: cached_ids_def)
  with F G gather_failed(3) show ?thesis by auto
next
  case (policy brdicts sf breqs sg)
  note F = fetchUnclaimedBrdicts_frame[OF policy(1)]
  note G = getUnclaimedBuildRequests_frame[OF policy(3)]
  from G policy(4) have i: "cached_ids s1 = cached_ids sf" by (simp add: cached_ids_def)
  from F obtain cs where cs: "calls sf = calls s @ cs" "invocations cs = 0" "draws E cs = 0"
    "tried_ids cs = []"
    by blast
  with G policy(4) have
    "calls s1 = calls s @ (cs @ [Call_nextBuild breqs])"
    "invocations (cs @ [Call_nextBuild breqs]) = 0" "draws E (cs @ [Call_nextBuild breqs]) = 0"
    "tried_ids (cs @ [Call_nextBuild breqs]) = []"
    by simp_all
  then have "\<exists>cs. calls s1 = calls s @ cs \<and> invocations cs = 0 \<and> draws E cs = 0 \<and> tried_ids cs = []"
    by blast
  with F G i policy(2,4) show ?thesis by auto
qed

lemma getNextUnclaimedBuildRequest_ids:
  assumes "getNextUnclaimedBuildRequest E s = (r, s1)" "ids_kept E" "memo_ok s"
  shows "memo_ok s1 \<and> (\<forall>b. r = Inr (Some b) \<longrightarrow> br_id b \<in> set (cached_ids s1))"
  using assms(1)
proof (cases rule: getNextUnclaimedBuildRequest_cases)
  case (fetch_failed e)
  with fetchUnclaimedBrdicts_frame[OF fetch_failed(1)] assms(3) show ?thesis
    by (simp add: memo_ok_def)
next
  case nothing_cached
  with fetchUnclaimedBrdicts_frame[OF nothing_cached(1)] assms(3) show ?thesis
    by (simp add: memo_ok_def)
next
  case (default brdicts sf brd)
  note F = fetchUnclaimedBrdicts_frame[OF default(1)]
  from F assms(3) have m: "memo_ok sf" by (simp add: memo_ok_def)
  from F have c: "unclaimedBrdicts sf = Some brdicts" by simp
  with getBuildRequestForBrdict_frame[OF default(3)] default(2)
  have "buildrequestid brd \<in> set (cached_ids s1)"
    by (simp add: cached_ids_def)
  with getBuildRequestForBrdict_ids[OF default(3) assms(2) m] show ?thesis by auto
next
  case (gather_failed brdicts sf e)
  note F = fetchUnclaimedBrdicts_frame[OF gather_failed(1)]
  from F assms(3) have m: "memo_ok sf" by (simp add: memo_ok_def)
  with getUnclaimedBuildRequests_ids[OF gather_failed(2) assms(2) m] gather_failed(3)
  show ?thesis by simp
next
  case (policy brdicts sf breqs sg)
  note F = fetchUnclaimedBrdicts_frame[OF policy(1)]
  from F assms(3) have m: "memo_ok sf" by (simp add: memo_ok_def)
  note G = getUnclaimedBuildRequests_frame[OF policy(3)]
  from G policy(4) have i: "cached_ids s1 = cached_ids sf" by (simp add: cached_ids_def)
  from getUnclaimedBuildRequests_ids[OF policy(3) assms(2) m] have
    "memo_ok sg" "\<forall>b. Some b \<in> set breqs \<longrightarrow> br_id b \<in> set (cached_ids sf)"
    by simp_all
  with policy(4,5) i show ?thesis by (auto simp: memo_ok_def)
qed

text \<open>What removing a request leaves.\<close>

lemma removeBuildRequest_frame:
  "workerpool (removeBuildRequest (Some b) s) = workerpool s"
  "preferredWorkers (removeBuildRequest (Some b) s) = preferredWorkers s"
  "calls (removeBuildRequest (Some b) s) = calls s"
  "breqCache (removeBuildRequest (Some b) s) = (breqCache s)(br_id b := None)"
  by (simp_all add: removeBuildRequest_def Let_def split: option.splits)

lemma removeBuildRequest_cache:
  assumes "unclaimedBrdicts s = Some xs"
  shows "(br_id b \<notin> buildrequestid ` set xs
            \<and> unclaimedBrdicts (removeBuildRequest (Some b) s) = Some xs)
    \<or> (\<exists>brd \<in> set xs. buildrequestid brd = br_id b
            \<and> unclaimedBrdicts (removeBuildRequest (Some b) s) = Some (remove1 brd xs))"
proof (cases "find (\<lambda>brd. br_id b = buildrequestid brd) xs")
  case None
  then have "br_id b \<notin> buildrequestid ` set xs"
    by (auto simp: find_None_iff)
  with None assms show ?thesis
    by (simp add: removeBuildRequest_def getBrdictForBuildRequest_def Let_def)
next
  case (Some brd)
  then have "brd \<in> set xs" "buildrequestid brd = br_id b"
    by (auto simp: find_Some_iff)
  with Some assms show ?thesis
    by (intro disjI2 bexI[of _ brd])
       (simp_all add: removeBuildRequest_def getBrdictForBuildRequest_def Let_def)
qed

lemma removeBuildRequest_memo_ok:
  "memo_ok s \<Longrightarrow> memo_ok (removeBuildRequest (Some b) s)"
  by (simp add: memo_ok_def removeBuildRequest_frame)

lemma distinct_ids_remove1:
  assumes "distinct (map buildrequestid xs)" "brd \<in> set xs"
  shows "distinct (map buildrequestid (remove1 brd xs))
    \<and> buildrequestid brd \<notin> buildrequestid ` set (remove1 brd xs)
    \<and> set (remove1 brd xs) \<subseteq> set xs"
proof -
  from assms(1) have d: "distinct xs" and inj: "inj_on buildrequestid (set xs)"
    by (simp_all add: distinct_map)
  from d have s: "set (remove1 brd xs) = set xs - {brd}" by simp
  have 1: "distinct (map buildrequestid (remove1 brd xs))"
    using d inj s by (simp add: distinct_map inj_on_diff)
  have 2: "buildrequestid brd \<notin> buildrequestid ` set (remove1 brd xs)"
    using inj assms(2) s by (auto simp: inj_on_def)
  from 1 2 s show ?thesis by auto
qed


section \<open>The loop of popNextBuild\<close>

lemma popNextBuild_body_pass:
  "(case getNextUnclaimedBuildRequest E s of
        (Inl e, s1) \<Rightarrow> Some (Inl e, s1)
      | (Inr None, s1) \<Rightarrow> Some (Inr (None, None), s1)
      | (Inr (Some breq), s1) \<Rightarrow>
          (let s2 = (if workerpool s1 = [] \<and> preferredWorkers s1 = []
                     then s1\<lparr>workerpool := getAvailableWorkers E\<rparr> else s1)
           in case popNextWorker E breq s2 of
                (None, s3) \<Rightarrow> Some (Inr (None, None), s3)
              | (Some worker, s3) \<Rightarrow>
                  (let s4 = removeBuildRequest (Some breq) s3
                   in case tryWorkers E breq worker [] s4 of
                        (Inl e, recycledWorkers, s5) \<Rightarrow> Some (Inl e, s5)
                      | (Inr found, recycledWorkers, s5) \<Rightarrow>
                          (let s6 = (if recycledWorkers \<noteq> []
                                     then unpopWorkers recycledWorkers s5 else s5)
                           in case found of
                                Some w \<Rightarrow> Some (Inr (Some w, Some breq), s6)
                              | None \<Rightarrow> f E s6))))
   = (case popNextBuild_pass E s of Done r s' \<Rightarrow> Some (r, s') | Again s6 \<Rightarrow> f E s6)"
  by (simp add: popNextBuild_pass_def refill_def recycle_def Let_def
        split: prod.splits sum.splits option.splits)


lemma popNextBuild_pass_cases:
  obtains (no_request) r s1 where "getNextUnclaimedBuildRequest E s = (r, s1)"
      "\<forall>b. r \<noteq> Inr (Some b)"
      "popNextBuild_pass E s = Done (case r of Inl e \<Rightarrow> Inl e | Inr x \<Rightarrow> Inr (None, None)) s1"
  | (no_worker) b s1 s3 where "getNextUnclaimedBuildRequest E s = (Inr (Some b), s1)"
      "popNextWorker E b (refill E s1) = (None, s3)"
      "popNextBuild_pass E s = Done (Inr (None, None)) s3"
  | (tried) b s1 w s3 x rec s5 where "getNextUnclaimedBuildRequest E s = (Inr (Some b), s1)"
      "popNextWorker E b (refill E s1) = (Some w, s3)"
      "tryWorkers E b w [] (removeBuildRequest (Some b) s3) = (x, rec, s5)"
      "popNextBuild_pass E s =
         (case x of
            Inl e \<Rightarrow> Done (Inl e) s5
          | Inr (Some w') \<Rightarrow> Done (Inr (Some w', Some b)) (recycle rec s5)
          | Inr None \<Rightarrow> Again (recycle rec s5))"
proof -
  obtain r s1 where g: "getNextUnclaimedBuildRequest E s = (r, s1)"
    by (cases "getNextUnclaimedBuildRequest E s")
  show ?thesis
  proof (cases "\<exists>b. r = Inr (Some b)")
    case False
    with g show ?thesis
      by - (rule no_request[of r s1],
            auto simp: popNextBuild_pass_def split: sum.splits option.splits)
  next
    case True
    then obtain b where b: "r = Inr (Some b)" by blast
    obtain ow s3 where p: "popNextWorker E b (refill E s1) = (ow, s3)"
      by (cases "popNextWorker E b (refill E s1)")
    show ?thesis
    proof (cases ow)
      case None
      with g b p show ?thesis
        by - (rule no_worker[of b s1 s3], simp_all add: popNextBuild_pass_def)
    next
      case (Some w)
      obtain x rec s5 where
        t: "tryWorkers E b w [] (removeBuildRequest (Some b) s3) = (x, rec, s5)"
        by (cases "tryWorkers E b w [] (removeBuildRequest (Some b) s3)")
      with g b p Some show ?thesis
        by - (rule tried[of b s1 w s3 x rec s5],
              simp_all add: popNextBuild_pass_def split: sum.splits option.splits)
    qed
  qed
qed

lemma popNextBuild_induct [consumes 1, case_names Done Again]:
  assumes run: "popNextBuild E s = Some (r, s')"
    and dn: "\<And>s r s'. popNextBuild_pass E s = Done r s' \<Longrightarrow> P s r s'"
    and ag: "\<And>s s6 r s'. popNextBuild_pass E s = Again s6 \<Longrightarrow> P s6 r s' \<Longrightarrow> P s r s'"
  shows "P s r s'"
proof -
  have "E' = E \<longrightarrow> P s (fst y) (snd y)" if "popNextBuild E' s = Some y" for E' y
  proof (rule popNextBuild.raw_induct[where P = "\<lambda>E' s y. E' = E \<longrightarrow> P s (fst y) (snd y)",
        OF _ that])
    fix f :: "chooser_env \<Rightarrow> chooser
        \<Rightarrow> ((exn + worker option \<times> BuildRequest option) \<times> chooser) option"
      and E' s y
    assume IH: "\<And>E' s y. f E' s = Some y \<Longrightarrow> E' = E \<longrightarrow> P s (fst y) (snd y)"
      and b: "(case getNextUnclaimedBuildRequest E' s of
        (Inl e, s1) \<Rightarrow> Some (Inl e, s1)
      | (Inr None, s1) \<Rightarrow> Some (Inr (None, None), s1)
      | (Inr (Some breq), s1) \<Rightarrow>
          (let s2 = (if workerpool s1 = [] \<and> preferredWorkers s1 = []
                     then s1\<lparr>workerpool := getAvailableWorkers E'\<rparr> else s1)
           in case popNextWorker E' breq s2 of
                (None, s3) \<Rightarrow> Some (Inr (None, None), s3)
              | (Some worker, s3) \<Rightarrow>
                  (let s4 = removeBuildRequest (Some breq) s3
                   in case tryWorkers E' breq worker [] s4 of
                        (Inl e, recycledWorkers, s5) \<Rightarrow> Some (Inl e, s5)
                      | (Inr found, recycledWorkers, s5) \<Rightarrow>
                          (let s6 = (if recycledWorkers \<noteq> []
                                     then unpopWorkers recycledWorkers s5 else s5)
                           in case found of
                                Some w \<Rightarrow> Some (Inr (Some w, Some breq), s6)
                              | None \<Rightarrow> f E' s6)))) = Some y"
    show "E' = E \<longrightarrow> P s (fst y) (snd y)"
    proof
      assume e: "E' = E"
      have body: "(case popNextBuild_pass E s of
                     Done r s' \<Rightarrow> Some (r, s') | Again s6 \<Rightarrow> f E s6) = Some y"
        using b unfolding e popNextBuild_body_pass .
      show "P s (fst y) (snd y)"
      proof (cases "popNextBuild_pass E s")
        case (Done r s')
        with body dn[OF Done] show ?thesis by auto
      next
        case (Again s6)
        with body have "f E s6 = Some y" by simp
        from IH[OF this] have "P s6 (fst y) (snd y)" by simp
        from ag[OF Again this] show ?thesis .
      qed
    qed
  qed
  from this[OF run] show ?thesis by simp
qed


lemma refill_frame [simp]:
  "unclaimedBrdicts (refill E s) = unclaimedBrdicts s"
  "breqCache (refill E s) = breqCache s"
  "preferredWorkers (refill E s) = preferredWorkers s"
  "calls (refill E s) = calls s"
  by (simp_all add: refill_def)



lemma recycle_frame [simp]:
  "unclaimedBrdicts (recycle rec s) = unclaimedBrdicts s"
  "breqCache (recycle rec s) = breqCache s"
  "workerpool (recycle rec s) = workerpool s"
  "calls (recycle rec s) = calls s"
  "preferredWorkers (recycle rec s) = rec @ preferredWorkers s"
  by (simp_all add: recycle_def unpopWorkers_def)

lemma cached_ids_cong: "unclaimedBrdicts s1 = unclaimedBrdicts s \<Longrightarrow> cached_ids s1 = cached_ids s"
  by (simp add: cached_ids_def)


text \<open>What one pass of the loop adds to the log and takes from the pool.\<close>

lemma getNextUnclaimedBuildRequest_log:
  assumes "getNextUnclaimedBuildRequest E s = (r, s1)"
  obtains cs where "calls s1 = calls s @ cs" "invocations cs = 0" "draws E cs = 0"
    "tried_ids cs = []"
  using getNextUnclaimedBuildRequest_frame[OF assms] by blast


lemma getNextUnclaimedBuildRequest_selected:
  assumes "getNextUnclaimedBuildRequest E s = (Inr (Some b), s1)"
  obtains xs where "unclaimedBrdicts s1 = Some xs" "length xs = pending_len E s" "xs \<noteq> []"
  using getNextUnclaimedBuildRequest_frame[OF assms] by blast







section \<open>Invocations of the next-worker policy\<close>










lemma ids_kept_env_of: "ids_kept (env_of brdicts ws pol can)"
  by (simp add: ids_kept_def env_of_def resolve_model_def)






section \<open>Requests that were tried\<close>

lemma remdups_adj_append_replicate:
  assumes "a \<notin> set xs"
  shows "remdups_adj (xs @ replicate (Suc n) a) = remdups_adj xs @ [a]"
proof -
  have "xs = [] \<or> replicate (Suc n) a = [] \<or> last xs \<noteq> hd (replicate (Suc n) a)"
    using assms by (cases "xs = []") (auto dest: last_in_set)
  then have "remdups_adj (xs @ replicate (Suc n) a)
      = remdups_adj xs @ remdups_adj (replicate (Suc n) a)"
    by (rule remdups_adj_append')
  then show ?thesis by (simp only: remdups_adj_replicate) simp
qed

lemma chooser_inv_cong:
  assumes "chooser_inv s" "breqCache t = breqCache s" "unclaimedBrdicts t = unclaimedBrdicts s"
    "tried_ids (calls t) = tried_ids (calls s)"
  shows "chooser_inv t"
  using assms by (simp add: chooser_inv_def memo_ok_def cached_ids_def)

lemma chooser_inv_BasicBuildChooser: "chooser_inv (BasicBuildChooser E)"
  by (simp add: chooser_inv_def memo_ok_def cached_ids_def BasicBuildChooser_def)

lemma getNextUnclaimedBuildRequest_cache:
  assumes "getNextUnclaimedBuildRequest E s = (r, s1)" "unclaimedBrdicts s = None"
  shows "unclaimedBrdicts s1 = None
    \<or> (\<exists>brds. data_get_buildrequests E = Inr brds
          \<and> unclaimedBrdicts s1 = Some (sort_key buildrequestid brds))"
proof -
  have F: "unclaimedBrdicts sf = None
        \<or> (\<exists>brds. data_get_buildrequests E = Inr brds
              \<and> unclaimedBrdicts sf = Some (sort_key buildrequestid brds))"
    if "fetchUnclaimedBrdicts E s = (rf, sf)" for rf sf
    using that assms(2) by (cases rule: fetchUnclaimedBrdicts_cases) simp_all
  from assms(1) show ?thesis
  proof (cases rule: getNextUnclaimedBuildRequest_cases)
    case (fetch_failed e)
    from F[OF fetch_failed(1)] show ?thesis .
  next
    case nothing_cached
    from F[OF nothing_cached(1)] show ?thesis .
  next
    case (default brdicts sf brd)
    from getBuildRequestForBrdict_frame[OF default(3)]
    have "unclaimedBrdicts s1 = unclaimedBrdicts sf" by simp
    with F[OF default(1)] show ?thesis by simp
  next
    case (gather_failed brdicts sf e)
    from getUnclaimedBuildRequests_frame[OF gather_failed(2)]
    have "unclaimedBrdicts s1 = unclaimedBrdicts sf" by simp
    with F[OF gather_failed(1)] show ?thesis by simp
  next
    case (policy brdicts sf breqs sg)
    from getUnclaimedBuildRequests_frame[OF policy(3)] policy(4)
    have "unclaimedBrdicts s1 = unclaimedBrdicts sf" by simp
    with F[OF policy(1)] show ?thesis by simp
  qed
qed

lemma distinct_ids_sort_key:
  "distinct (map buildrequestid brds) \<Longrightarrow>
     distinct (map buildrequestid (sort_key buildrequestid brds))"
  by (metis distinct_map distinct_sort set_sort)

lemma getNextUnclaimedBuildRequest_inv:
  assumes run: "getNextUnclaimedBuildRequest E s = (r, s1)"
    and E: "ids_kept E" "store_ids_distinct E" and inv: "chooser_inv s"
  shows "chooser_inv s1"
proof -
  from inv have m: "memo_ok s" and d: "distinct (cached_ids s)"
    and dm: "dom (breqCache s) \<subseteq> set (cached_ids s)"
    and tr: "\<forall>i \<in> set (tried_ids (calls s)). i \<notin> set (cached_ids s)"
    and dt: "distinct (remdups_adj (tried_ids (calls s)))"
    and nn: "unclaimedBrdicts s = None \<longrightarrow> tried_ids (calls s) = []"
    by (simp_all add: chooser_inv_def)
  from getNextUnclaimedBuildRequest_ids[OF run E(1) m] have m1: "memo_ok s1" by simp
  from run obtain cs where "calls s1 = calls s @ cs" "tried_ids cs = []"
    by (rule getNextUnclaimedBuildRequest_log)
  then have t1: "tried_ids (calls s1) = tried_ids (calls s)" by simp
  note G = getNextUnclaimedBuildRequest_frame[OF run]
  from G have keep: "\<forall>xs. unclaimedBrdicts s = Some xs \<longrightarrow> unclaimedBrdicts s1 = Some xs"
    and memo: "\<forall>k. k \<notin> set (cached_ids s1) \<longrightarrow> breqCache s1 k = breqCache s k"
    by simp_all
  show ?thesis
  proof (cases "unclaimedBrdicts s")
    case (Some xs)
    with keep have c1: "unclaimedBrdicts s1 = unclaimedBrdicts s" by simp
    then have i1: "cached_ids s1 = cached_ids s" by (rule cached_ids_cong)
    have "dom (breqCache s1) \<subseteq> set (cached_ids s1)"
    proof
      fix k assume k: "k \<in> dom (breqCache s1)"
      show "k \<in> set (cached_ids s1)"
      proof (rule ccontr)
        assume n: "k \<notin> set (cached_ids s1)"
        with memo have "breqCache s1 k = breqCache s k" by simp
        with k have "k \<in> dom (breqCache s)" by (simp add: dom_def)
        with dm i1 n show False by auto
      qed
    qed
    with m1 d tr dt nn t1 i1 c1 show ?thesis by (simp add: chooser_inv_def)
  next
    case None
    with nn t1 have t0: "tried_ids (calls s1) = []" by simp
    from None dm have e: "breqCache s = Map.empty" by (auto simp: cached_ids_def)
    have dm1: "dom (breqCache s1) \<subseteq> set (cached_ids s1)"
    proof
      fix k assume k: "k \<in> dom (breqCache s1)"
      show "k \<in> set (cached_ids s1)"
      proof (rule ccontr)
        assume n: "k \<notin> set (cached_ids s1)"
        with memo have "breqCache s1 k = breqCache s k" by simp
        with k e show False by (simp add: dom_def)
      qed
    qed
    have "distinct (cached_ids s1)"
    proof -
      from getNextUnclaimedBuildRequest_cache[OF run None] show ?thesis
      proof
        assume "unclaimedBrdicts s1 = None"
        then show ?thesis by (simp add: cached_ids_def)
      next
        assume "\<exists>brds. data_get_buildrequests E = Inr brds
          \<and> unclaimedBrdicts s1 = Some (sort_key buildrequestid brds)"
        then obtain brds where b: "data_get_buildrequests E = Inr brds"
          "unclaimedBrdicts s1 = Some (sort_key buildrequestid brds)"
          by blast
        from E(2) b(1) have "distinct (map buildrequestid brds)"
          by (simp add: store_ids_distinct_def)
        with b(2) show ?thesis by (simp add: cached_ids_def distinct_ids_sort_key)
      qed
    qed
    with m1 dm1 t0 show ?thesis by (simp add: chooser_inv_def)
  qed
qed


lemma ids_remove1:
  assumes "distinct (map buildrequestid xs)" "brd \<in> set xs"
  shows "buildrequestid ` set (remove1 brd xs) = buildrequestid ` set xs - {buildrequestid brd}"
proof -
  from assms(1) have d: "distinct xs" and inj: "inj_on buildrequestid (set xs)"
    by (simp_all add: distinct_map)
  from d have s: "set (remove1 brd xs) = set xs - {brd}" by simp
  show ?thesis
    unfolding s using inj assms(2) by (auto simp: inj_on_def)
qed

lemma tried_ids_member:
  "Call_canStartBuild w b \<in> set cs \<Longrightarrow> br_id b \<in> set (tried_ids cs)"
  by (induction cs) (auto simp: tried_ids_def)

text \<open>One pass keeps the invariant.\<close>

lemma popNextBuild_pass_inv:
  assumes E: "ids_kept E" "store_ids_distinct E" and inv: "chooser_inv s"
  shows "chooser_inv (pass_state (popNextBuild_pass E s))"
proof (cases E s rule: popNextBuild_pass_cases)
  case (no_request r s1)
  from getNextUnclaimedBuildRequest_inv[OF no_request(1) E inv] no_request(3)
  show ?thesis by simp
next
  case (no_worker b s1 s3)
  note i1 = getNextUnclaimedBuildRequest_inv[OF no_worker(1) E inv]
  from popNextWorker_count[OF no_worker(2)] obtain ds where
    "calls s3 = calls (refill E s1) @ ds" "tried_ids ds = []"
    by blast
  then have t: "tried_ids (calls s3) = tried_ids (calls s1)" by simp
  from popNextWorker_frame[OF no_worker(2)] have
    "breqCache s3 = breqCache s1" "unclaimedBrdicts s3 = unclaimedBrdicts s1"
    by simp_all
  from chooser_inv_cong[OF i1 this t] no_worker(3) show ?thesis by simp
next
  case (tried b s1 w s3 x rec s5)
  let ?s4 = "removeBuildRequest (Some b) s3"
  note i1 = getNextUnclaimedBuildRequest_inv[OF tried(1) E inv]
  from inv have "memo_ok s" by (simp add: chooser_inv_def)
  from getNextUnclaimedBuildRequest_ids[OF tried(1) E(1) this]
  have idb: "br_id b \<in> set (cached_ids s1)" by simp
  from popNextWorker_count[OF tried(2)] obtain ds where
    "calls s3 = calls (refill E s1) @ ds" "tried_ids ds = []"
    by blast
  then have t3: "tried_ids (calls s3) = tried_ids (calls s1)" by simp
  from popNextWorker_frame[OF tried(2)] have
    f3: "breqCache s3 = breqCache s1" "unclaimedBrdicts s3 = unclaimedBrdicts s1"
    by simp_all
  note i3 = chooser_inv_cong[OF i1 f3 t3]
  from i3 have m3: "memo_ok s3" and d3: "distinct (cached_ids s3)"
    and dm3: "dom (breqCache s3) \<subseteq> set (cached_ids s3)"
    and tr3: "\<forall>i \<in> set (tried_ids (calls s3)). i \<notin> set (cached_ids s3)"
    and dt3: "distinct (remdups_adj (tried_ids (calls s3)))"
    by (simp_all add: chooser_inv_def)
  from tried(1) obtain xs where "unclaimedBrdicts s1 = Some xs"
    by (rule getNextUnclaimedBuildRequest_selected)
  with f3 have c3: "unclaimedBrdicts s3 = Some xs" by simp
  then have ids3: "cached_ids s3 = map buildrequestid xs" by (simp add: cached_ids_def)
  from idb f3(2) have idb3: "br_id b \<in> set (cached_ids s3)"
    by (simp add: cached_ids_def)
  with ids3 removeBuildRequest_cache[OF c3, of b] obtain brd where
    brd: "brd \<in> set xs" "buildrequestid brd = br_id b"
      "unclaimedBrdicts ?s4 = Some (remove1 brd xs)"
    by auto
  from d3 ids3 have dx: "distinct (map buildrequestid xs)" by simp
  from brd(3) have ids4: "cached_ids ?s4 = map buildrequestid (remove1 brd xs)"
    by (simp add: cached_ids_def)
  from distinct_ids_remove1[OF dx brd(1)] have d4: "distinct (cached_ids ?s4)"
    unfolding ids4 by simp
  from ids_remove1[OF dx brd(1)] brd(2) have
    set4: "set (cached_ids ?s4) = set (cached_ids s3) - {br_id b}"
    unfolding ids4 ids3 by simp
  have m4: "memo_ok ?s4" by (rule removeBuildRequest_memo_ok[OF m3])
  have dm4: "dom (breqCache ?s4) \<subseteq> set (cached_ids ?s4)"
    using dm3 unfolding set4 by (auto simp: removeBuildRequest_frame)
  from tr3 idb3 have fresh: "br_id b \<notin> set (tried_ids (calls s3))" by blast
  from tryWorkers_count[OF tried(3)] obtain es n where
    es: "calls s5 = calls ?s4 @ es" "tried_ids es = replicate (Suc n) (br_id b)"
    by blast
  then have t5: "tried_ids (calls s5) = tried_ids (calls s3) @ replicate (Suc n) (br_id b)"
    by (simp add: removeBuildRequest_frame)
  from tryWorkers_frame[OF tried(3)] have
    f5: "unclaimedBrdicts s5 = unclaimedBrdicts ?s4" "breqCache s5 = breqCache ?s4"
    by simp_all
  then have ids5: "cached_ids s5 = cached_ids ?s4" by (simp add: cached_ids_def)
  have tr5: "\<forall>i \<in> set (tried_ids (calls s5)). i \<notin> set (cached_ids s5)"
    unfolding t5 ids5 set4 using tr3 by auto
  have dt5: "distinct (remdups_adj (tried_ids (calls s5)))"
    unfolding t5 remdups_adj_append_replicate[OF fresh] using dt3 fresh by simp
  have i5: "chooser_inv s5"
    using m4 d4 dm4 tr5 dt5 f5 brd(3)
    by (simp add: chooser_inv_def ids5 memo_ok_def)
  have i6: "chooser_inv (recycle rec s5)"
    by (rule chooser_inv_cong[OF i5]) simp_all
  from i5 i6 show ?thesis
    unfolding tried(4) by (simp split: sum.splits option.splits)
qed

lemma popNextBuild_inv:
  assumes "popNextBuild E s = Some (r, s')" "ids_kept E" "store_ids_distinct E"
  shows "chooser_inv s \<longrightarrow> chooser_inv s'"
  using assms(1)
proof (induction rule: popNextBuild_induct)
  case (Done s r s')
  from popNextBuild_pass_inv[OF assms(2,3), of s] show ?case
    unfolding Done by simp
next
  case (Again s s6 r s')
  from popNextBuild_pass_inv[OF assms(2,3), of s] Again show ?case
    by simp
qed

text \<open>
  C10. \<^verbatim>\<open>popNextBuild\<close> removes the selected request from the cache and the memo as soon
  as the first worker is drawn for it, before \<^verbatim>\<open>canStartBuild\<close> is asked. So after any call
  of \<^verbatim>\<open>popNextBuild\<close>, whatever it returns, every request for which a worker was checked
  is neither in the cache nor in the memo, and over the whole log of the chooser each such
  request was tried in one run of consecutive checks, never again later. A fresh chooser
  satisfies the invariant and every call keeps it. The chooser only reads the store: the
  request stays there unclaimed. The store lists each id once and
  \<^verbatim>\<open>BuildRequest.fromBrdict\<close> keeps the id.
\<close>

theorem tried_request_leaves_the_cache:
  assumes "ids_kept E" "store_ids_distinct E" "chooser_inv s"
    "popNextBuild E s = Some (r, s')"
  shows "chooser_inv s'
    \<and> (\<forall>w b. Call_canStartBuild w b \<in> set (calls s') \<longrightarrow>
          br_id b \<notin> set (cached_ids s') \<and> breqCache s' (br_id b) = None)
    \<and> distinct (remdups_adj (tried_ids (calls s')))
    \<and> chooser_inv (BasicBuildChooser E)"
proof -
  from popNextBuild_inv[OF assms(4,1,2)] assms(3) have i: "chooser_inv s'" by simp
  have "br_id b \<notin> set (cached_ids s') \<and> breqCache s' (br_id b) = None"
    if "Call_canStartBuild w b \<in> set (calls s')" for w b
  proof -
    from that have "br_id b \<in> set (tried_ids (calls s'))" by (rule tried_ids_member)
    with i have n: "br_id b \<notin> set (cached_ids s')" by (simp add: chooser_inv_def)
    from i have "dom (breqCache s') \<subseteq> set (cached_ids s')" by (simp add: chooser_inv_def)
    with n have "breqCache s' (br_id b) = None" by (auto simp: dom_def)
    with n show ?thesis by simp
  qed
  moreover from i have "distinct (remdups_adj (tried_ids (calls s')))"
    by (simp add: chooser_inv_def)
  ultimately show ?thesis using i chooser_inv_BasicBuildChooser by blast
qed

lemma store_ids_distinct_env_same_worker: "store_ids_distinct env_same_worker"
  by (simp add: store_ids_distinct_def env_same_worker_def env_of_def brdict_of_def)

theorem tried_request_leaves_the_cache_witness:
  "ids_kept env_same_worker \<and> store_ids_distinct env_same_worker
   \<and> chooser_inv (BasicBuildChooser env_same_worker)
   \<and> (\<exists>s'. popNextBuild env_same_worker (BasicBuildChooser env_same_worker)
              = Some (Inr (None, None), s')
          \<and> distinct (remdups_adj (tried_ids (calls s'))) \<and> chooser_inv s')
   \<and> map_option (tried_ids \<circ> calls \<circ> snd)
        (popNextBuild env_same_worker (BasicBuildChooser env_same_worker)) = Some [1, 2, 3]
   \<and> map_option (cached_ids \<circ> snd)
        (popNextBuild env_same_worker (BasicBuildChooser env_same_worker)) = Some []
   \<and> data_get_buildrequests env_same_worker
        = Inr [brdict_of 1 0 0, brdict_of 2 0 0, brdict_of 3 0 0]"
proof -
  let ?E = env_same_worker
  have i: "ids_kept ?E" unfolding env_same_worker_def by (rule ids_kept_env_of)
  have d: "store_ids_distinct ?E" by (rule store_ids_distinct_env_same_worker)
  have c: "chooser_inv (BasicBuildChooser ?E)" by (rule chooser_inv_BasicBuildChooser)
  have "map_option fst (popNextBuild ?E (BasicBuildChooser ?E)) = Some (Inr (None, None))"
    by code_simp
  then obtain s' where run: "popNextBuild ?E (BasicBuildChooser ?E) = Some (Inr (None, None), s')"
    by auto
  from tried_request_leaves_the_cache[OF i d c run] have
    "distinct (remdups_adj (tried_ids (calls s'))) \<and> chooser_inv s'"
    by simp
  with run have e: "\<exists>s'. popNextBuild ?E (BasicBuildChooser ?E) = Some (Inr (None, None), s')
          \<and> distinct (remdups_adj (tried_ids (calls s'))) \<and> chooser_inv s'"
    by blast
  have t: "map_option (tried_ids \<circ> calls \<circ> snd) (popNextBuild ?E (BasicBuildChooser ?E))
      = Some [1, 2, 3]"
    by code_simp
  have n: "map_option (cached_ids \<circ> snd) (popNextBuild ?E (BasicBuildChooser ?E)) = Some []"
    by code_simp
  have s: "data_get_buildrequests ?E = Inr [brdict_of 1 0 0, brdict_of 2 0 0, brdict_of 3 0 0]"
    by (simp add: env_same_worker_def env_of_def)
  from i d c e t n s show ?thesis by blast
qed


end
